theory Spec2Isabelle
  imports Main "HOL-Library.Sublist" "HOL-Library.List_Lexorder"
begin

section \<open>Python strings\<close>

text \<open>
  A Python \<^verbatim>\<open>str\<close> is a sequence of Unicode code points, so a string is a list of
  code points, each a natural number. \<open>py\<close> reads an ASCII literal as such a string.
\<close>

type_synonym pystr = "nat list"

definition py :: "string \<Rightarrow> pystr" where
  "py s = map of_char s"

text \<open>
  The characters \<^verbatim>\<open>str.strip()\<close> removes when called without an argument: the code
  points for which \<^verbatim>\<open>str.isspace\<close> holds (U+0009..U+000D, U+001C..U+0020, U+0085,
  U+00A0, U+1680, U+2000..U+200A, U+2028, U+2029, U+202F, U+205F, U+3000).
\<close>

definition is_space :: "nat \<Rightarrow> bool" where
  "is_space c \<longleftrightarrow>
     (9 \<le> c \<and> c \<le> 13) \<or> (28 \<le> c \<and> c \<le> 32) \<or> c = 133 \<or> c = 160 \<or> c = 5760 \<or>
     (8192 \<le> c \<and> c \<le> 8202) \<or> c = 8232 \<or> c = 8233 \<or> c = 8239 \<or> c = 8287 \<or> c = 12288"

definition lstrip :: "pystr \<Rightarrow> pystr" where
  "lstrip s = dropWhile is_space s"

definition rstrip :: "pystr \<Rightarrow> pystr" where
  "rstrip s = rev (dropWhile is_space (rev s))"

definition strip :: "pystr \<Rightarrow> pystr" where
  "strip s = rstrip (lstrip s)"

text \<open>The whitespace \<^verbatim>\<open>strip\<close> cuts off at the two ends of a string.\<close>

definition leading :: "pystr \<Rightarrow> pystr" where
  "leading s = takeWhile is_space s"

definition trailing :: "pystr \<Rightarrow> pystr" where
  "trailing s = rev (takeWhile is_space (rev (lstrip s)))"

text \<open>\<^verbatim>\<open>val.rstrip('\n')\<close>: every trailing line feed (code point 10) is removed.\<close>

definition rstrip_nl :: "pystr \<Rightarrow> pystr" where
  "rstrip_nl s = rev (dropWhile (\<lambda>c. c = 10) (rev s))"

definition startswith :: "pystr \<Rightarrow> pystr \<Rightarrow> bool" where
  "startswith s p = prefix p s"

text \<open>
  \<^verbatim>\<open>s.replace(old, new)\<close> replaces every non-overlapping occurrence of \<open>old\<close>, found
  from left to right. With an empty \<open>old\<close> Python puts \<open>new\<close> before every character and
  at the end.
\<close>

function replace_from :: "pystr \<Rightarrow> pystr \<Rightarrow> pystr \<Rightarrow> pystr" where
  "replace_from [] old new = []"
| "replace_from (c # cs) old new =
     (if old \<noteq> [] \<and> prefix old (c # cs)
      then new @ replace_from (drop (length old) (c # cs)) old new
      else c # replace_from cs old new)"
  by pat_completeness auto
termination
  by (relation "measure (\<lambda>(s, old, new). length s)") (auto simp: neq_Nil_conv)

definition replace :: "pystr \<Rightarrow> pystr \<Rightarrow> pystr \<Rightarrow> pystr" where
  "replace s old new =
     (if old = [] then new @ concat (map (\<lambda>c. c # new) s) else replace_from s old new)"

section \<open>Translation memory\<close>

text \<open>
  \<^verbatim>\<open>TMCache\<close> wraps a shelf, a persistent dictionary from strings to strings.
  \<^verbatim>\<open>get\<close> is the dictionary's \<^verbatim>\<open>get\<close>: \<open>None\<close> for a key that is absent.
\<close>

type_synonym shelf = "pystr \<rightharpoonup> pystr"

definition TMCache_get :: "shelf \<Rightarrow> pystr \<Rightarrow> pystr option" where
  "TMCache_get db src = db src"

definition TMCache_put :: "shelf \<Rightarrow> pystr \<Rightarrow> pystr \<Rightarrow> shelf" where
  "TMCache_put db src tgt = db(src \<mapsto> tgt)"

datatype cache_op = Get pystr | Put pystr pystr

fun cache_step :: "shelf \<Rightarrow> cache_op \<Rightarrow> shelf" where
  "cache_step db (Get k) = db"
| "cache_step db (Put k v) = TMCache_put db k v"

definition cache_run :: "shelf \<Rightarrow> cache_op list \<Rightarrow> shelf" where
  "cache_run db ops = foldl cache_step db ops"

fun put_key :: "cache_op \<Rightarrow> pystr option" where
  "put_key (Get k) = None"
| "put_key (Put k v) = Some k"

section \<open>The translate wrapper\<close>

text \<open>
  An exception carries its message. Only the class \<^verbatim>\<open>Exception\<close> is modelled: it is
  what the provider call and the regular-expression library raise.
\<close>

datatype exn = Exception pystr

fun str_of_exn :: "exn \<Rightarrow> pystr" where
  "str_of_exn (Exception msg) = msg"

text \<open>
  The options of the command line that the handlers read. \<open>skip_regex\<close> is \<open>None\<close>
  unless \<^verbatim>\<open>--skip-regex\<close> is given.
\<close>

record args =
  src :: pystr
  tgt :: pystr
  api_key :: pystr
  skip_regex :: "pystr option"

text \<open>
  The state a run threads through every call: the shelf behind the cache, the world
  outside the process that the provider call reads and changes, and the lines printed
  to the diagnostic stream.
\<close>

record 'w env =
  db :: shelf
  world :: 'w
  stderr :: "pystr list"

text \<open>
  The translation function is a call to a remote provider: it returns a translation or
  raises, and whatever it does may depend on the world and change it.
\<close>

type_synonym 'w translate_func = "'w \<Rightarrow> pystr \<Rightarrow> (exn + pystr) \<times> 'w"

text \<open>
  \<^verbatim>\<open>re.search(pattern, text)\<close> is the library's: it is a parameter here, telling
  whether the pattern matches somewhere in the text, or raising for a pattern that does
  not compile.
\<close>

type_synonym re_search = "pystr \<Rightarrow> pystr \<Rightarrow> exn + bool"

text \<open>
  \<^verbatim>\<open>args.skip_regex and re.search(args.skip_regex, s_stripped)\<close>: an absent or empty
  pattern is falsy, and the search is not run.
\<close>

definition skip_match :: "re_search \<Rightarrow> args \<Rightarrow> pystr \<Rightarrow> exn + bool" where
  "skip_match re a s_stripped =
     (case skip_regex a of
        None \<Rightarrow> Inr False
      | Some p \<Rightarrow> if p = [] then Inr False else re p s_stripped)"

text \<open>\<^verbatim>\<open>if cached:\<close> holds for a string that is present and not empty.\<close>

fun truthy :: "pystr option \<Rightarrow> bool" where
  "truthy None = False"
| "truthy (Some v) = (v \<noteq> [])"

definition translate_text ::
  "re_search \<Rightarrow> pystr \<Rightarrow> 'w translate_func \<Rightarrow> args \<Rightarrow> 'w env \<Rightarrow> (exn + pystr) \<times> 'w env" where
  "translate_text re s translate_func a e =
     (let s_stripped = strip s in
      if s_stripped = [] then (Inr s, e)
      else
        case skip_match re a s_stripped of
          Inl err \<Rightarrow> (Inl err, e)
        | Inr True \<Rightarrow> (Inr s, e)
        | Inr False \<Rightarrow>
            (let cached = TMCache_get (db e) s_stripped in
             if truthy cached then (Inr (replace s s_stripped (the cached)), e)
             else
               case translate_func (world e) s_stripped of
                 (Inr translated, w) \<Rightarrow>
                   (Inr (replace s s_stripped translated),
                    e\<lparr>db := TMCache_put (db e) s_stripped translated, world := w\<rparr>)
               | (Inl err, w) \<Rightarrow>
                   (Inr s,
                    e\<lparr>world := w,
                      stderr := stderr e @ [py ''Translate error: '' @ str_of_exn err]\<rparr>)))"

text \<open>
  \<^verbatim>\<open>call_deepl(text, src_lang, tgt_lang, api_key)\<close> posts to the provider and reads
  the translation out of the answer, or raises: a parameter here. The translation
  function built in \<^verbatim>\<open>main\<close> fixes the language pair and the key of the run (the
  pause before each call is not modelled).
\<close>

type_synonym 'w call_deepl = "'w \<Rightarrow> pystr \<Rightarrow> pystr \<Rightarrow> pystr \<Rightarrow> pystr \<Rightarrow> (exn + pystr) \<times> 'w"

definition translate_func_factory :: "'w call_deepl \<Rightarrow> args \<Rightarrow> 'w translate_func" where
  "translate_func_factory call_deepl a = (\<lambda>w text. call_deepl w text (src a) (tgt a) (api_key a))"

section \<open>Tree-structured documents\<close>

text \<open>
  What \<^verbatim>\<open>json.load\<close> and \<^verbatim>\<open>yaml.safe_load\<close> return: a dict (its items in
  insertion order, the keys distinct), a list, a string, or any other value (a number,
  a boolean, \<^verbatim>\<open>None\<close>), which \<open>walk\<close> does not look into.
\<close>

datatype ('k, 'a) tree =
    TDict "('k \<times> ('k, 'a) tree) list"
  | TList "('k, 'a) tree list"
  | TStr pystr
  | TOther 'a

text \<open>
  \<^verbatim>\<open>walk\<close> is written twice in the source, inside \<^verbatim>\<open>translate_json\<close> and inside
  \<^verbatim>\<open>translate_yaml\<close>, with the same text. The two comprehensions run from left to
  right and stop at the first exception.
\<close>

fun walk ::
    "re_search \<Rightarrow> 'w translate_func \<Rightarrow> args \<Rightarrow> ('k, 'a) tree \<Rightarrow> 'w env
     \<Rightarrow> (exn + ('k, 'a) tree) \<times> 'w env"
  and walk_items ::
    "re_search \<Rightarrow> 'w translate_func \<Rightarrow> args \<Rightarrow> ('k \<times> ('k, 'a) tree) list \<Rightarrow> 'w env
     \<Rightarrow> (exn + ('k \<times> ('k, 'a) tree) list) \<times> 'w env"
  and walk_list ::
    "re_search \<Rightarrow> 'w translate_func \<Rightarrow> args \<Rightarrow> ('k, 'a) tree list \<Rightarrow> 'w env
     \<Rightarrow> (exn + ('k, 'a) tree list) \<times> 'w env"
where
  "walk re tf a (TDict kvs) e =
     (case walk_items re tf a kvs e of
        (Inl err, e') \<Rightarrow> (Inl err, e')
      | (Inr kvs', e') \<Rightarrow> (Inr (TDict kvs'), e'))"
| "walk re tf a (TList xs) e =
     (case walk_list re tf a xs e of
        (Inl err, e') \<Rightarrow> (Inl err, e')
      | (Inr xs', e') \<Rightarrow> (Inr (TList xs'), e'))"
| "walk re tf a (TStr s) e =
     (case translate_text re s tf a e of
        (Inl err, e') \<Rightarrow> (Inl err, e')
      | (Inr s', e') \<Rightarrow> (Inr (TStr s'), e'))"
| "walk re tf a (TOther x) e = (Inr (TOther x), e)"
| "walk_items re tf a [] e = (Inr [], e)"
| "walk_items re tf a ((k, v) # kvs) e =
     (case walk re tf a v e of
        (Inl err, e') \<Rightarrow> (Inl err, e')
      | (Inr v', e') \<Rightarrow>
          (case walk_items re tf a kvs e' of
             (Inl err, e'') \<Rightarrow> (Inl err, e'')
           | (Inr kvs', e'') \<Rightarrow> (Inr ((k, v') # kvs'), e'')))"
| "walk_list re tf a [] e = (Inr [], e)"
| "walk_list re tf a (x # xs) e =
     (case walk re tf a x e of
        (Inl err, e') \<Rightarrow> (Inl err, e')
      | (Inr x', e') \<Rightarrow>
          (case walk_list re tf a xs e' of
             (Inl err, e'') \<Rightarrow> (Inl err, e'')
           | (Inr xs', e'') \<Rightarrow> (Inr (x' # xs'), e'')))"

text \<open>
  What a handler hands to the serializer that writes the file:
  \<^verbatim>\<open>json.dump(new, f, ensure_ascii=False, indent=2)\<close> or
  \<^verbatim>\<open>yaml.safe_dump(new, f, allow_unicode=True)\<close>. The file is opened for writing only
  after \<open>walk\<close> has returned, so an exception leaves it as it was.
\<close>

datatype ('k, 'a) dumped =
    JsonDump "('k, 'a) tree" (ensure_ascii: bool) (indent: nat)
  | YamlSafeDump "('k, 'a) tree" (allow_unicode: bool)

definition translate_json ::
  "re_search \<Rightarrow> ('k, 'a) tree \<Rightarrow> 'w translate_func \<Rightarrow> args \<Rightarrow> 'w env
   \<Rightarrow> (exn + ('k, 'a) dumped) \<times> 'w env" where
  "translate_json re data tf a e =
     (case walk re tf a data e of
        (Inl err, e') \<Rightarrow> (Inl err, e')
      | (Inr new, e') \<Rightarrow> (Inr (JsonDump new False 2), e'))"

definition translate_yaml ::
  "re_search \<Rightarrow> ('k, 'a) tree \<Rightarrow> 'w translate_func \<Rightarrow> args \<Rightarrow> 'w env
   \<Rightarrow> (exn + ('k, 'a) dumped) \<times> 'w env" where
  "translate_yaml re data tf a e =
     (case walk re tf a data e of
        (Inl err, e') \<Rightarrow> (Inl err, e')
      | (Inr new, e') \<Rightarrow> (Inr (YamlSafeDump new True), e'))"

text \<open>
  The keys of a mapping: strings, numbers (as integers here) or \<^verbatim>\<open>None\<close>. Python
  orders two strings and two numbers; every other comparison raises \<^verbatim>\<open>TypeError\<close>.
\<close>

datatype pykey = KStr pystr | KInt int | KNone

fun comparable :: "pykey \<Rightarrow> pykey \<Rightarrow> bool" where
  "comparable (KStr x) (KStr y) = True"
| "comparable (KInt x) (KInt y) = True"
| "comparable x y = False"

fun key_less :: "pykey \<Rightarrow> pykey \<Rightarrow> bool" where
  "key_less (KStr x) (KStr y) = (x < y)"
| "key_less (KInt x) (KInt y) = (x < y)"
| "key_less x y = False"

fun all_comparable :: "pykey list \<Rightarrow> bool" where
  "all_comparable [] = True"
| "all_comparable (k # ks) = (list_all (comparable k) ks \<and> all_comparable ks)"

fun insert_item :: "pykey \<times> 'v \<Rightarrow> (pykey \<times> 'v) list \<Rightarrow> (pykey \<times> 'v) list" where
  "insert_item x [] = [x]"
| "insert_item x (y # ys) =
     (if key_less (fst y) (fst x) then y # insert_item x ys else x # y # ys)"

fun sort_items :: "(pykey \<times> 'v) list \<Rightarrow> (pykey \<times> 'v) list" where
  "sort_items [] = []"
| "sort_items (x # xs) = insert_item x (sort_items xs)"

text \<open>
  The order in which the serializers write the items of a mapping is the libraries' own.
  \<^verbatim>\<open>json.dump\<close> has \<^verbatim>\<open>sort_keys=False\<close> unless told otherwise and writes the items in
  the order of the dict. \<^verbatim>\<open>yaml.safe_dump\<close> has \<^verbatim>\<open>sort_keys=True\<close> unless told
  otherwise, and its representer then runs
  \<^verbatim>\<open>try: mapping = sorted(mapping) except TypeError: pass\<close> on the list of items: the
  items come out in the order of their keys, or, when two keys cannot be compared, in the
  order they had. \<open>emitted\<close> is the tree in the order in which it is written.
\<close>

definition sorted_or_kept :: "(pykey \<times> 'v) list \<Rightarrow> (pykey \<times> 'v) list" where
  "sorted_or_kept kvs = (if all_comparable (map fst kvs) then sort_items kvs else kvs)"

fun yaml_order :: "(pykey, 'a) tree \<Rightarrow> (pykey, 'a) tree"
  and yaml_order_items :: "(pykey \<times> (pykey, 'a) tree) list \<Rightarrow> (pykey \<times> (pykey, 'a) tree) list"
  and yaml_order_list :: "(pykey, 'a) tree list \<Rightarrow> (pykey, 'a) tree list"
where
  "yaml_order (TDict kvs) = TDict (sorted_or_kept (yaml_order_items kvs))"
| "yaml_order (TList xs) = TList (yaml_order_list xs)"
| "yaml_order (TStr s) = TStr s"
| "yaml_order (TOther x) = TOther x"
| "yaml_order_items [] = []"
| "yaml_order_items ((k, v) # kvs) = (k, yaml_order v) # yaml_order_items kvs"
| "yaml_order_list [] = []"
| "yaml_order_list (x # xs) = yaml_order x # yaml_order_list xs"

fun emitted :: "(pykey, 'a) dumped \<Rightarrow> (pykey, 'a) tree" where
  "emitted (JsonDump t ea ind) = t"
| "emitted (YamlSafeDump t au) = yaml_order t"

fun dict_keys :: "('k, 'a) tree \<Rightarrow> 'k list" where
  "dict_keys (TDict kvs) = map fst kvs"
| "dict_keys t = []"

text \<open>
  Two trees that differ at most in their string leaves: the same keys in the same order,
  sequences of the same length, every other leaf equal. \<open>P\<close> relates the string leaves.
\<close>

fun same_but_strings ::
    "(pystr \<Rightarrow> pystr \<Rightarrow> bool) \<Rightarrow> ('k, 'a) tree \<Rightarrow> ('k, 'a) tree \<Rightarrow> bool"
  and same_items ::
    "(pystr \<Rightarrow> pystr \<Rightarrow> bool) \<Rightarrow> ('k \<times> ('k, 'a) tree) list \<Rightarrow> ('k \<times> ('k, 'a) tree) list \<Rightarrow> bool"
  and same_list ::
    "(pystr \<Rightarrow> pystr \<Rightarrow> bool) \<Rightarrow> ('k, 'a) tree list \<Rightarrow> ('k, 'a) tree list \<Rightarrow> bool"
where
  "same_but_strings P (TDict kvs) t = (case t of TDict kvs' \<Rightarrow> same_items P kvs kvs' | _ \<Rightarrow> False)"
| "same_but_strings P (TList xs) t = (case t of TList xs' \<Rightarrow> same_list P xs xs' | _ \<Rightarrow> False)"
| "same_but_strings P (TStr s) t = (case t of TStr s' \<Rightarrow> P s s' | _ \<Rightarrow> False)"
| "same_but_strings P (TOther x) t = (case t of TOther x' \<Rightarrow> x = x' | _ \<Rightarrow> False)"
| "same_items P [] kvs' = (kvs' = [])"
| "same_items P ((k, v) # kvs) kvs' =
     (case kvs' of
        [] \<Rightarrow> False
      | (k', v') # rest \<Rightarrow> k = k' \<and> same_but_strings P v v' \<and> same_items P kvs rest)"
| "same_list P [] xs' = (xs' = [])"
| "same_list P (x # xs) xs' =
     (case xs' of [] \<Rightarrow> False | x' # rest \<Rightarrow> same_but_strings P x x' \<and> same_list P xs rest)"

text \<open>The tree with a function applied to every string leaf.\<close>

fun map_strings :: "(pystr \<Rightarrow> pystr) \<Rightarrow> ('k, 'a) tree \<Rightarrow> ('k, 'a) tree"
  and map_strings_items :: "(pystr \<Rightarrow> pystr) \<Rightarrow> ('k \<times> ('k, 'a) tree) list \<Rightarrow> ('k \<times> ('k, 'a) tree) list"
  and map_strings_list :: "(pystr \<Rightarrow> pystr) \<Rightarrow> ('k, 'a) tree list \<Rightarrow> ('k, 'a) tree list"
where
  "map_strings f (TDict kvs) = TDict (map_strings_items f kvs)"
| "map_strings f (TList xs) = TList (map_strings_list f xs)"
| "map_strings f (TStr s) = TStr (f s)"
| "map_strings f (TOther x) = TOther x"
| "map_strings_items f [] = []"
| "map_strings_items f ((k, v) # kvs) = (k, map_strings f v) # map_strings_items f kvs"
| "map_strings_list f [] = []"
| "map_strings_list f (x # xs) = map_strings f x # map_strings_list f xs"

section \<open>Line-oriented key=value files\<close>

text \<open>
  The file is opened in text mode: on reading, \<^verbatim>\<open>\r\n\<close> and a lone \<^verbatim>\<open>\r\<close> (code
  point 13) become \<^verbatim>\<open>\n\<close> (code point 10). Iterating over the file then gives its
  lines, each with its line feed; only the last line can lack one. \<open>content\<close> is the
  decoded text of the file.
\<close>

fun universal_newlines :: "pystr \<Rightarrow> pystr" where
  "universal_newlines [] = []"
| "universal_newlines [c] = (if c = 13 then [10] else [c])"
| "universal_newlines (c # d # cs) =
     (if c = 13 then
        (if d = 10 then 10 # universal_newlines cs else 10 # universal_newlines (d # cs))
      else c # universal_newlines (d # cs))"

fun lines_from :: "pystr \<Rightarrow> pystr \<Rightarrow> pystr list" where
  "lines_from cur [] = (if cur = [] then [] else [cur])"
| "lines_from cur (c # cs) =
     (if c = 10 then (cur @ [c]) # lines_from [] cs else lines_from (cur @ [c]) cs)"

definition file_lines :: "pystr \<Rightarrow> pystr list" where
  "file_lines content = lines_from [] (universal_newlines content)"

text \<open>\<^verbatim>\<open>line.split('=', 1)\<close> on a line that contains \<^verbatim>\<open>=\<close> (code point 61).\<close>

definition split_eq :: "pystr \<Rightarrow> pystr \<times> pystr" where
  "split_eq line = (takeWhile (\<lambda>c. c \<noteq> 61) line, tl (dropWhile (\<lambda>c. c \<noteq> 61) line))"

text \<open>The body of the loop of \<^verbatim>\<open>translate_properties\<close>: the line appended for one line read.\<close>

definition properties_line ::
  "re_search \<Rightarrow> 'w translate_func \<Rightarrow> args \<Rightarrow> pystr \<Rightarrow> 'w env \<Rightarrow> (exn + pystr) \<times> 'w env" where
  "properties_line re tf a line e =
     (if startswith (strip line) (py ''#'') \<or> 61 \<notin> set line then (Inr line, e)
      else
        (let (key, val) = split_eq line;
             val_s = rstrip_nl val
         in case translate_text re val_s tf a e of
              (Inl err, e') \<Rightarrow> (Inl err, e')
            | (Inr newval, e') \<Rightarrow> (Inr (key @ py ''='' @ newval @ [10]), e')))"

fun properties_loop ::
  "re_search \<Rightarrow> 'w translate_func \<Rightarrow> args \<Rightarrow> pystr list \<Rightarrow> 'w env \<Rightarrow> (exn + pystr list) \<times> 'w env" where
  "properties_loop re tf a [] e = (Inr [], e)"
| "properties_loop re tf a (line # rest) e =
     (case properties_line re tf a line e of
        (Inl err, e') \<Rightarrow> (Inl err, e')
      | (Inr out, e') \<Rightarrow>
          (case properties_loop re tf a rest e' of
             (Inl err, e'') \<Rightarrow> (Inl err, e'')
           | (Inr outs, e'') \<Rightarrow> (Inr (out # outs), e'')))"

text \<open>The text written back, or the exception that left the file as it was.\<close>

definition translate_properties ::
  "re_search \<Rightarrow> pystr \<Rightarrow> 'w translate_func \<Rightarrow> args \<Rightarrow> 'w env \<Rightarrow> (exn + pystr) \<times> 'w env" where
  "translate_properties re content tf a e =
     (case properties_loop re tf a (file_lines content) e of
        (Inl err, e') \<Rightarrow> (Inl err, e')
      | (Inr lines_out, e') \<Rightarrow> (Inr (concat lines_out), e'))"

section \<open>Translation catalogs\<close>

text \<open>An entry of a catalog, with the two fields the handler reads.\<close>

record po_entry =
  msgid :: pystr
  msgstr :: pystr

text \<open>
  The loop of \<^verbatim>\<open>translate_po\<close> over the entries, with the flag \<^verbatim>\<open>changed\<close>. It
  returns the entries as they are after the loop and the flag.
\<close>

fun po_loop ::
  "re_search \<Rightarrow> 'w translate_func \<Rightarrow> args \<Rightarrow> po_entry list \<Rightarrow> bool \<Rightarrow> 'w env
   \<Rightarrow> (exn + po_entry list \<times> bool) \<times> 'w env" where
  "po_loop re tf a [] changed e = (Inr ([], changed), e)"
| "po_loop re tf a (entry # rest) changed e =
     (if strip (msgid entry) = [] then
        (case po_loop re tf a rest changed e of
           (Inl err, e') \<Rightarrow> (Inl err, e')
         | (Inr (rest', ch), e') \<Rightarrow> (Inr (entry # rest', ch), e'))
      else if strip (msgstr entry) = [] then
        (case translate_text re (msgid entry) tf a e of
           (Inl err, e') \<Rightarrow> (Inl err, e')
         | (Inr t, e') \<Rightarrow>
             (case po_loop re tf a rest True e' of
                (Inl err, e'') \<Rightarrow> (Inl err, e'')
              | (Inr (rest', ch), e'') \<Rightarrow> (Inr (entry\<lparr>msgstr := t\<rparr> # rest', ch), e'')))
      else
        (case po_loop re tf a rest changed e of
           (Inl err, e') \<Rightarrow> (Inl err, e')
         | (Inr (rest', ch), e') \<Rightarrow> (Inr (entry # rest', ch), e')))"

text \<open>
  The entries after the loop, and whether \<^verbatim>\<open>po.save(path)\<close> ran: the file is written
  again exactly when the flag is set.
\<close>

definition translate_po ::
  "re_search \<Rightarrow> po_entry list \<Rightarrow> 'w translate_func \<Rightarrow> args \<Rightarrow> 'w env
   \<Rightarrow> (exn + po_entry list \<times> bool) \<times> 'w env" where
  "translate_po re po tf a e = po_loop re tf a po False e"

text \<open>An entry the loop sends to \<open>translate_text\<close>.\<close>

definition po_candidate :: "po_entry \<Rightarrow> bool" where
  "po_candidate entry \<longleftrightarrow> strip (msgid entry) \<noteq> [] \<and> strip (msgstr entry) = []"

section \<open>Notions the properties are stated with\<close>

text \<open>
  A translation function that counts its calls, for a call-count assertion: it behaves as
  the function it wraps and adds one to a counter kept beside the world.
\<close>

definition counted :: "'w translate_func \<Rightarrow> (nat \<times> 'w) translate_func" where
  "counted tf = (\<lambda>(n, w) text. case tf w text of (r, w') \<Rightarrow> (r, (Suc n, w')))"

text \<open>Values of other types, for documents with mixed leaves.\<close>

datatype scalar = PyNone | PyBool bool | PyInt int

text \<open>
  A translation function that is a function of the text alone: it returns or raises by
  the text it is given and leaves the world as it is.
\<close>

definition pure_client :: "(pystr \<Rightarrow> exn + pystr) \<Rightarrow> 'w translate_func" where
  "pure_client f = (\<lambda>w text. (f text, w))"

text \<open>Every translation the cache holds is the one such a function gives.\<close>

definition cache_agrees :: "(pystr \<Rightarrow> exn + pystr) \<Rightarrow> shelf \<Rightarrow> bool" where
  "cache_agrees f d \<longleftrightarrow> (\<forall>k v. d k = Some v \<and> v \<noteq> [] \<longrightarrow> f k = Inr v)"

text \<open>
  What the string policy asks for a candidate: unchanged when it is blank, when it
  matches the skip pattern or when the translation function raises for its trimmed form,
  and otherwise the translation between the candidate's own leading and trailing
  whitespace.
\<close>

definition expected :: "re_search \<Rightarrow> args \<Rightarrow> (pystr \<Rightarrow> exn + pystr) \<Rightarrow> pystr \<Rightarrow> pystr" where
  "expected re a f s =
     (if strip s = [] then s
      else if skip_match re a (strip s) = Inr True then s
      else case f (strip s) of Inl err \<Rightarrow> s | Inr t \<Rightarrow> leading s @ t @ trailing s)"

text \<open>
  What the loop of \<^verbatim>\<open>translate_po\<close> does to one entry: nothing, unless the entry is a
  candidate, and then only the translation is set, to what \<open>translate_text\<close> returned
  for the id.
\<close>

definition po_entry_done ::
  "re_search \<Rightarrow> 'w translate_func \<Rightarrow> args \<Rightarrow> po_entry \<Rightarrow> po_entry \<Rightarrow> bool" where
  "po_entry_done re tf a entry entry' \<longleftrightarrow>
     (if po_candidate entry
      then entry' = entry\<lparr>msgstr := msgstr entry'\<rparr> \<and>
           (\<exists>e1 e2. translate_text re (msgid entry) tf a e1 = (Inr (msgstr entry'), e2))
      else entry' = entry)"

text \<open>
  The line \<^verbatim>\<open>translate_properties\<close> is to emit for a line, with a translation function
  that is a function of the text: the line itself when it is a comment or has no
  \<^verbatim>\<open>=\<close>, and otherwise the key, \<^verbatim>\<open>=\<close>, what the string policy asks for the rest
  without its line feeds, and a line feed.
\<close>

definition expected_line ::
  "re_search \<Rightarrow> args \<Rightarrow> (pystr \<Rightarrow> exn + pystr) \<Rightarrow> pystr \<Rightarrow> pystr" where
  "expected_line re a f line =
     (if startswith (strip line) (py ''#'') \<or> 61 \<notin> set line then line
      else fst (split_eq line) @ py ''='' @
           expected re a f (rstrip_nl (snd (split_eq line))) @ [10])"

text \<open>
  The entry \<^verbatim>\<open>translate_po\<close> is to leave for an entry, with a translation function that
  is a function of the text: a candidate with what the string policy asks for its id as
  its translation, any other entry as it is.
\<close>

definition po_expected ::
  "re_search \<Rightarrow> args \<Rightarrow> (pystr \<Rightarrow> exn + pystr) \<Rightarrow> po_entry \<Rightarrow> po_entry" where
  "po_expected re a f entry =
     (if po_candidate entry then entry\<lparr>msgstr := expected re a f (msgid entry)\<rparr> else entry)"

section \<open>Properties of the string operations\<close>


lemma leading_space: "c \<in> set (leading s) \<Longrightarrow> is_space c"
  by (auto simp: leading_def dest: set_takeWhileD)

lemma trailing_space: "c \<in> set (trailing s) \<Longrightarrow> is_space c"
  by (auto simp: trailing_def dest: set_takeWhileD)

lemma dropWhile_Nil_all: "dropWhile P xs = [] \<longleftrightarrow> (\<forall>x \<in> set xs. P x)"
  by (induction xs) auto

lemma lstrip_Nil_iff: "lstrip s = [] \<longleftrightarrow> (\<forall>c \<in> set s. is_space c)"
  by (simp add: lstrip_def dropWhile_Nil_all)

lemma lstrip_hd: "lstrip s \<noteq> [] \<Longrightarrow> \<not> is_space (hd (lstrip s))"
  unfolding lstrip_def by (rule hd_dropWhile)

lemma strip_Nil_iff: "strip s = [] \<longleftrightarrow> (\<forall>c \<in> set s. is_space c)"
proof
  assume "strip s = []"
  then have all: "\<forall>c \<in> set (lstrip s). is_space c"
    by (simp add: strip_def rstrip_def dropWhile_Nil_all)
  have "lstrip s = []"
  proof (rule ccontr)
    assume ne: "lstrip s \<noteq> []"
    then have "hd (lstrip s) \<in> set (lstrip s)" by simp
    with all lstrip_hd [OF ne] show False by blast
  qed
  then show "\<forall>c \<in> set s. is_space c" by (simp add: lstrip_Nil_iff)
next
  assume "\<forall>c \<in> set s. is_space c"
  then have "lstrip s = []" by (simp add: lstrip_Nil_iff)
  then show "strip s = []" by (simp add: strip_def rstrip_def)
qed

lemma lstrip_split: "lstrip s = strip s @ trailing s"
proof -
  define r where "r = rev (lstrip s)"
  have "rev (takeWhile is_space r @ dropWhile is_space r) = rev r"
    by simp
  then have "rev (dropWhile is_space r) @ rev (takeWhile is_space r) = rev r"
    by (simp only: rev_append)
  then show ?thesis
    by (simp add: strip_def rstrip_def trailing_def r_def)
qed

lemma split_strip: "s = leading s @ strip s @ trailing s"
proof -
  have "s = leading s @ lstrip s"
    by (simp add: leading_def lstrip_def)
  then show ?thesis
    using lstrip_split [of s] by simp
qed

lemma strip_hd: assumes "strip s \<noteq> []" shows "\<not> is_space (hd (strip s))"
proof -
  have "lstrip s \<noteq> []" using assms by (auto simp: strip_def rstrip_def)
  then have "\<not> is_space (hd (lstrip s))" by (rule lstrip_hd)
  moreover have "hd (lstrip s) = hd (strip s)"
    using assms lstrip_split [of s] by (metis hd_append2)
  ultimately show ?thesis by simp
qed

lemma replace_from_spaces:
  "old \<noteq> [] \<Longrightarrow> \<not> is_space (hd old) \<Longrightarrow> \<forall>c \<in> set ws. is_space c \<Longrightarrow>
   replace_from ws old new = ws"
proof (induction ws)
  case Nil
  then show ?case by simp
next
  case (Cons c ws)
  then have "\<not> prefix old (c # ws)"
    by (cases old) auto
  with Cons show ?case by simp
qed

lemma replace_from_splice:
  assumes "old \<noteq> []" "\<not> is_space (hd old)"
    "\<forall>c \<in> set lead. is_space c" "\<forall>c \<in> set trail. is_space c"
  shows "replace_from (lead @ old @ trail) old new = lead @ new @ trail"
  using assms(3)
proof (induction lead)
  case Nil
  obtain c cs where old: "old = c # cs" using assms(1) by (cases old) auto
  have "replace_from (old @ trail) old new = new @ replace_from trail old new"
    by (simp add: old)
  then show ?case
    using replace_from_spaces [OF assms(1,2,4)] by simp
next
  case (Cons c lead)
  then have "\<not> prefix old ((c # lead) @ old @ trail)"
    using assms(1,2) by (cases old) auto
  with Cons show ?case by simp
qed

lemma replace_strip:
  "strip s \<noteq> [] \<Longrightarrow> replace s (strip s) new = leading s @ new @ trailing s"
proof -
  assume ne: "strip s \<noteq> []"
  have "replace_from (leading s @ strip s @ trailing s) (strip s) new
        = leading s @ new @ trailing s"
    by (rule replace_from_splice [OF ne strip_hd [OF ne]])
       (auto dest: leading_space trailing_space)
  then show ?thesis
    using ne split_strip [of s] by (simp add: replace_def)
qed


lemma strip_last: assumes "strip s \<noteq> []" shows "\<not> is_space (last (strip s))"
proof -
  have ne: "dropWhile is_space (rev (lstrip s)) \<noteq> []"
    using assms by (simp add: strip_def rstrip_def)
  have "last (strip s) = hd (dropWhile is_space (rev (lstrip s)))"
    using ne by (simp add: strip_def rstrip_def last_rev)
  then show ?thesis using hd_dropWhile [OF ne] by simp
qed

lemma translate_text_blank:
  "strip s = [] \<Longrightarrow> translate_text re s tf a e = (Inr s, e)"
  by (simp add: translate_text_def Let_def)

lemma translate_text_skip:
  "skip_match re a (strip s) = Inr True \<Longrightarrow> translate_text re s tf a e = (Inr s, e)"
  by (simp add: translate_text_def Let_def)

lemma translate_text_re_error:
  "strip s \<noteq> [] \<Longrightarrow> skip_match re a (strip s) = Inl err \<Longrightarrow>
   translate_text re s tf a e = (Inl err, e)"
  by (simp add: translate_text_def Let_def)

lemma translate_text_hit:
  "strip s \<noteq> [] \<Longrightarrow> skip_match re a (strip s) = Inr False \<Longrightarrow>
   db e (strip s) = Some v \<Longrightarrow> v \<noteq> [] \<Longrightarrow>
   translate_text re s tf a e = (Inr (leading s @ v @ trailing s), e)"
  by (simp add: translate_text_def Let_def TMCache_get_def replace_strip)

lemma translate_text_miss:
  "strip s \<noteq> [] \<Longrightarrow> skip_match re a (strip s) = Inr False \<Longrightarrow>
   \<not> truthy (db e (strip s)) \<Longrightarrow> tf (world e) (strip s) = (Inr t, w) \<Longrightarrow>
   translate_text re s tf a e =
     (Inr (leading s @ t @ trailing s), e\<lparr>db := (db e)(strip s \<mapsto> t), world := w\<rparr>)"
  by (simp add: translate_text_def Let_def TMCache_get_def TMCache_put_def replace_strip)

lemma translate_text_fail:
  "strip s \<noteq> [] \<Longrightarrow> skip_match re a (strip s) = Inr False \<Longrightarrow>
   \<not> truthy (db e (strip s)) \<Longrightarrow> tf (world e) (strip s) = (Inl err, w) \<Longrightarrow>
   translate_text re s tf a e =
     (Inr s, e\<lparr>world := w, stderr := stderr e @ [py ''Translate error: '' @ str_of_exn err]\<rparr>)"
  by (simp add: translate_text_def Let_def TMCache_get_def)

lemma translate_text_returns:
  assumes "\<And>err. skip_match re a (strip s) \<noteq> Inl err"
  shows "\<exists>r. fst (translate_text re s tf a e) = Inr r"
proof (cases "strip s = []")
  case True
  then show ?thesis by (simp add: translate_text_blank)
next
  case False
  obtain b where b: "skip_match re a (strip s) = Inr b"
    using assms by (cases "skip_match re a (strip s)") auto
  show ?thesis
  proof (cases b)
    case True
    with b show ?thesis by (simp add: translate_text_skip)
  next
    case nb: False
    show ?thesis
    proof (cases "truthy (db e (strip s))")
      case True
      then obtain v where "db e (strip s) = Some v" "v \<noteq> []"
        by (cases "db e (strip s)") auto
      with False b nb show ?thesis by (simp add: translate_text_hit)
    next
      case miss: False
      obtain r w where tf: "tf (world e) (strip s) = (r, w)"
        by (cases "tf (world e) (strip s)")
      show ?thesis
      proof (cases r)
        case (Inl err)
        with False b nb miss tf show ?thesis by (simp add: translate_text_fail)
      next
        case (Inr t)
        with False b nb miss tf show ?thesis by (simp add: translate_text_miss)
      qed
    qed
  qed
qed

text \<open>The definitions to unfold when a string operation is run on a literal.\<close>

lemmas str_eval = py_def is_space_def strip_def lstrip_def rstrip_def leading_def trailing_def

section \<open>Properties of the cache\<close>

text \<open>
  Claim C8. For every key \<open>k\<close> (empty or not) and every value \<open>v\<close>, \<^verbatim>\<open>put(k, v)\<close>
  followed by \<^verbatim>\<open>get(k)\<close> returns exactly \<open>v\<close>; and nothing evicts the entry: after any
  further sequence of \<^verbatim>\<open>get\<close>s and of \<^verbatim>\<open>put\<close>s under other keys, \<^verbatim>\<open>get(k)\<close>
  still returns \<open>v\<close>.
\<close>

theorem cache_put_get:
  "TMCache_get (TMCache_put d k v) k = Some v \<and>
   (\<forall>ops. (\<forall>op \<in> set ops. put_key op \<noteq> Some k) \<longrightarrow>
      TMCache_get (cache_run (TMCache_put d k v) ops) k = Some v)"
proof -
  have keep: "(\<forall>op \<in> set ops. put_key op \<noteq> Some k) \<Longrightarrow> c k = Some v \<Longrightarrow>
      foldl cache_step c ops k = Some v" for ops c
  proof (induction ops arbitrary: c)
    case Nil
    then show ?case by simp
  next
    case (Cons op ops)
    then have "cache_step c op k = Some v"
      by (cases op) (auto simp: TMCache_put_def)
    with Cons show ?case by simp
  qed
  show ?thesis
    using keep by (simp add: TMCache_get_def TMCache_put_def cache_run_def)
qed

theorem cache_put_get_witness:
  "TMCache_get
     (cache_run (TMCache_put Map.empty (py ''Hello'') (py ''Bonjour''))
        [Get (py ''Hello''), Put (py ''World'') (py ''Monde''), Get (py ''Bye'')])
     (py ''Hello'') = Some (py ''Bonjour'')"
proof -
  have "\<forall>op \<in> set [Get (py ''Hello''), Put (py ''World'') (py ''Monde''), Get (py ''Bye'')].
          put_key op \<noteq> Some (py ''Hello'')"
    by (simp add: py_def)
  with cache_put_get [of Map.empty "py ''Hello''" "py ''Bonjour''"] show ?thesis
    by blast
qed

section \<open>Properties of the translate wrapper\<close>

text \<open>
  Claim C2. Every candidate \<open>s\<close> is its leading whitespace, its trimmed core and its
  trailing whitespace, the core beginning and ending with a character that is not
  whitespace. When the core is not empty and the candidate is not skipped, the result is
  the leading whitespace, the translation and the trailing whitespace, for a translation
  taken from the cache as for one returned by the translation function: the core occurs
  in \<open>s\<close> only once, so \<^verbatim>\<open>replace\<close> touches nothing else.
\<close>

theorem translate_text_splice:
  "strip s \<noteq> [] \<Longrightarrow> skip_match re a (strip s) = Inr False \<Longrightarrow>
   s = leading s @ strip s @ trailing s \<and>
   (\<forall>c \<in> set (leading s @ trailing s). is_space c) \<and>
   \<not> is_space (hd (strip s)) \<and> \<not> is_space (last (strip s)) \<and>
   (\<forall>v. db e (strip s) = Some v \<and> v \<noteq> [] \<longrightarrow>
      fst (translate_text re s tf a e) = Inr (leading s @ v @ trailing s)) \<and>
   (\<forall>t w. \<not> truthy (db e (strip s)) \<and> tf (world e) (strip s) = (Inr t, w) \<longrightarrow>
      fst (translate_text re s tf a e) = Inr (leading s @ t @ trailing s))"
proof -
  assume ne: "strip s \<noteq> []" and sk: "skip_match re a (strip s) = Inr False"
  have "s = leading s @ strip s @ trailing s" by (rule split_strip)
  moreover have "\<forall>c \<in> set (leading s @ trailing s). is_space c"
    by (auto dest: leading_space trailing_space)
  moreover have "\<not> is_space (hd (strip s))" by (rule strip_hd [OF ne])
  moreover have "\<not> is_space (last (strip s))" by (rule strip_last [OF ne])
  moreover have "\<forall>v. db e (strip s) = Some v \<and> v \<noteq> [] \<longrightarrow>
      fst (translate_text re s tf a e) = Inr (leading s @ v @ trailing s)"
    using ne sk by (simp add: translate_text_hit)
  moreover have "\<forall>t w. \<not> truthy (db e (strip s)) \<and> tf (world e) (strip s) = (Inr t, w) \<longrightarrow>
      fst (translate_text re s tf a e) = Inr (leading s @ t @ trailing s)"
    using ne sk by (simp add: translate_text_miss)
  ultimately show ?thesis by blast
qed

theorem translate_text_splice_witness:
  "fst (translate_text (\<lambda>p x. Inr False) (py ''  Hello World  '')
          (\<lambda>w text. (Inr (py ''Bonjour''), w))
          \<lparr>src = py ''EN'', tgt = py ''FR'', api_key = py ''key'', skip_regex = None\<rparr>
          \<lparr>db = Map.empty, world = (), stderr = []\<rparr>)
   = Inr (py ''  Bonjour  '')"
proof -
  let ?s = "py ''  Hello World  ''"
  let ?a = "\<lparr>src = py ''EN'', tgt = py ''FR'', api_key = py ''key'', skip_regex = None\<rparr>"
  let ?e = "\<lparr>db = Map.empty, world = (), stderr = []\<rparr> :: unit env"
  let ?tf = "\<lambda>(w::unit) (text::pystr). (Inr (py ''Bonjour'') :: exn + pystr, w)"
  let ?re = "\<lambda>(p::pystr) (x::pystr). Inr False :: exn + bool"
  have st: "strip ?s = py ''Hello World''" by (simp add: str_eval)
  have 1: "strip ?s \<noteq> []" by (simp add: st) (simp add: py_def)
  have 2: "skip_match ?re ?a (strip ?s) = Inr False" by (simp add: skip_match_def)
  have 3: "\<not> truthy (db ?e (strip ?s))" by simp
  have 4: "?tf (world ?e) (strip ?s) = (Inr (py ''Bonjour''), ())" by simp
  have l: "leading ?s = py ''  ''" and t: "trailing ?s = py ''  ''" by (simp_all add: str_eval)
  from translate_text_splice [OF 1 2, of ?e ?tf] 3 4
  have "fst (translate_text ?re ?s ?tf ?a ?e) = Inr (leading ?s @ py ''Bonjour'' @ trailing ?s)"
    by blast
  then show ?thesis by (simp add: l t) (simp add: py_def)
qed

text \<open>
  Claim C3. A candidate that is empty or all whitespace after trimming, or whose trimmed
  form matches the configured exclusion pattern (an option that is given and not the
  empty string, which Python takes as false), is returned unchanged, and so is the whole
  state. The translation function is not called: a function that counts its calls has
  the count it had before.
\<close>

theorem translate_text_skips:
  "strip s = [] \<or> (skip_regex a = Some p \<and> p \<noteq> [] \<and> re p (strip s) = Inr True) \<Longrightarrow>
   translate_text re s tf a e = (Inr s, e) \<and>
   fst (translate_text re s (counted tf) a ec) = Inr s \<and>
   fst (world (snd (translate_text re s (counted tf) a ec))) = fst (world ec)"
proof -
  assume "strip s = [] \<or> (skip_regex a = Some p \<and> p \<noteq> [] \<and> re p (strip s) = Inr True)"
  then have sk: "strip s = [] \<or> skip_match re a (strip s) = Inr True"
    by (auto simp: skip_match_def)
  then have "translate_text re s tf a e = (Inr s, e)"
    by (auto simp: translate_text_blank translate_text_skip)
  moreover from sk have "translate_text re s (counted tf) a ec = (Inr s, ec)"
    by (auto simp: translate_text_blank translate_text_skip)
  ultimately show ?thesis by simp
qed

theorem translate_text_skips_witness:
  "translate_text (\<lambda>p x. Inr (p = x)) (py '' %s '') (\<lambda>w text. (Inr (py ''X''), w))
     \<lparr>src = py ''EN'', tgt = py ''JA'', api_key = py ''key'', skip_regex = Some (py ''%s'')\<rparr>
     \<lparr>db = Map.empty, world = (), stderr = []\<rparr>
   = (Inr (py '' %s ''), \<lparr>db = Map.empty, world = (), stderr = []\<rparr>) \<and>
   fst (world (snd (translate_text (\<lambda>p x. Inr (p = x)) (py ''   '')
     (counted (\<lambda>w text. (Inr (py ''X''), w)))
     \<lparr>src = py ''EN'', tgt = py ''JA'', api_key = py ''key'', skip_regex = None\<rparr>
     \<lparr>db = Map.empty, world = (0, ()), stderr = []\<rparr>))) = 0"
proof -
  let ?re = "\<lambda>(p::pystr) (x::pystr). Inr (p = x) :: exn + bool"
  let ?tf = "\<lambda>(w::unit) (text::pystr). (Inr (py ''X'') :: exn + pystr, w)"
  let ?a = "\<lparr>src = py ''EN'', tgt = py ''JA'', api_key = py ''key'', skip_regex = Some (py ''%s'')\<rparr>"
  let ?b = "\<lparr>src = py ''EN'', tgt = py ''JA'', api_key = py ''key'', skip_regex = None\<rparr>"
  let ?e = "\<lparr>db = Map.empty, world = (), stderr = []\<rparr> :: unit env"
  let ?ec = "\<lparr>db = Map.empty, world = (0, ()), stderr = []\<rparr> :: (nat \<times> unit) env"
  have "skip_regex ?a = Some (py ''%s'') \<and> py ''%s'' \<noteq> [] \<and>
      ?re (py ''%s'') (strip (py '' %s '')) = Inr True"
    by (simp add: str_eval)
  then have 1: "strip (py '' %s '') = [] \<or>
      (skip_regex ?a = Some (py ''%s'') \<and> py ''%s'' \<noteq> [] \<and>
       ?re (py ''%s'') (strip (py '' %s '')) = Inr True)"
    by (rule disjI2)
  have "strip (py ''   '') = []" by (simp add: str_eval)
  then have 2: "strip (py ''   '') = [] \<or>
      (skip_regex ?b = Some [] \<and> [] \<noteq> ([]::pystr) \<and> ?re [] (strip (py ''   '')) = Inr True)"
    by (rule disjI1)
  have "translate_text ?re (py '' %s '') ?tf ?a ?e = (Inr (py '' %s ''), ?e)"
    using translate_text_skips [where s = "py '' %s ''" and a = ?a and p = "py ''%s''"
        and re = ?re and tf = ?tf and e = ?e] 1 by blast
  moreover have "fst (world (snd (translate_text ?re (py ''   '') (counted ?tf) ?b ?ec))) = 0"
    using translate_text_skips [where s = "py ''   ''" and a = ?b and p = "[]"
        and re = ?re and tf = ?tf and ec = ?ec] 2 by simp
  ultimately show ?thesis by blast
qed

text \<open>
  Claim C10. When the cache holds the empty string for the trimmed candidate, the lookup
  counts as a miss: the translation function is called again (a function that counts its
  calls has one more), and what it returns is spliced and stored over the empty entry.
  If it raises, the candidate is returned as it is and the entry stays.
\<close>

theorem empty_cached_is_miss:
  "strip s \<noteq> [] \<Longrightarrow> skip_match re a (strip s) = Inr False \<Longrightarrow> d (strip s) = Some [] \<Longrightarrow>
   (\<forall>t w'. tf w (strip s) = (Inr t, w') \<longrightarrow>
      translate_text re s tf a \<lparr>db = d, world = w, stderr = l\<rparr> =
        (Inr (leading s @ t @ trailing s), \<lparr>db = d(strip s \<mapsto> t), world = w', stderr = l\<rparr>)) \<and>
   (\<forall>err w'. tf w (strip s) = (Inl err, w') \<longrightarrow>
      translate_text re s tf a \<lparr>db = d, world = w, stderr = l\<rparr> =
        (Inr s, \<lparr>db = d, world = w',
                 stderr = l @ [py ''Translate error: '' @ str_of_exn err]\<rparr>)) \<and>
   fst (world (snd (translate_text re s (counted tf) a \<lparr>db = d, world = (n, w), stderr = l\<rparr>)))
     = Suc n"
proof -
  assume ne: "strip s \<noteq> []" and sk: "skip_match re a (strip s) = Inr False"
    and em: "d (strip s) = Some []"
  have miss: "\<not> truthy (db \<lparr>db = d, world = x, stderr = l\<rparr> (strip s))" for x :: 'b
    using em by simp
  have miss': "\<not> truthy (db \<lparr>db = d, world = (n, w), stderr = l\<rparr> (strip s))"
    using em by simp
  have ok: "\<forall>t w'. tf w (strip s) = (Inr t, w') \<longrightarrow>
      translate_text re s tf a \<lparr>db = d, world = w, stderr = l\<rparr> =
        (Inr (leading s @ t @ trailing s), \<lparr>db = d(strip s \<mapsto> t), world = w', stderr = l\<rparr>)"
    using ne sk miss [of w] by (simp add: translate_text_miss)
  have bad: "\<forall>err w'. tf w (strip s) = (Inl err, w') \<longrightarrow>
      translate_text re s tf a \<lparr>db = d, world = w, stderr = l\<rparr> =
        (Inr s, \<lparr>db = d, world = w',
                 stderr = l @ [py ''Translate error: '' @ str_of_exn err]\<rparr>)"
    using ne sk miss [of w] by (simp add: translate_text_fail)
  obtain r w' where tf: "tf w (strip s) = (r, w')" by (cases "tf w (strip s)")
  then have ctf: "counted tf (world \<lparr>db = d, world = (n, w), stderr = l\<rparr>) (strip s) = (r, (Suc n, w'))"
    by (simp add: counted_def)
  have "fst (world (snd (translate_text re s (counted tf) a \<lparr>db = d, world = (n, w), stderr = l\<rparr>)))
     = Suc n"
  proof (cases r)
    case (Inl err)
    with ne sk miss' ctf show ?thesis
      by (simp add: translate_text_fail [where tf = "counted tf" and w = "(Suc n, w')"])
  next
    case (Inr t)
    with ne sk miss' ctf show ?thesis
      by (simp add: translate_text_miss [where tf = "counted tf" and w = "(Suc n, w')"])
  qed
  with ok bad show ?thesis by blast
qed

theorem empty_cached_is_miss_witness:
  "translate_text (\<lambda>p x. Inr False) (py '' Hello'') (\<lambda>w text. (Inr (py ''Bonjour''), Suc w))
     \<lparr>src = py ''EN'', tgt = py ''FR'', api_key = py ''key'', skip_regex = None\<rparr>
     \<lparr>db = [py ''Hello'' \<mapsto> []], world = 0, stderr = []\<rparr>
   = (Inr (py '' Bonjour''),
      \<lparr>db = [py ''Hello'' \<mapsto> py ''Bonjour''], world = 1, stderr = []\<rparr>)"
proof -
  let ?s = "py '' Hello''"
  let ?a = "\<lparr>src = py ''EN'', tgt = py ''FR'', api_key = py ''key'', skip_regex = None\<rparr>"
  let ?tf = "\<lambda>(w::nat) (text::pystr). (Inr (py ''Bonjour'') :: exn + pystr, Suc w)"
  let ?re = "\<lambda>(p::pystr) (x::pystr). Inr False :: exn + bool"
  let ?d = "[py ''Hello'' \<mapsto> []] :: shelf"
  have st: "strip ?s = py ''Hello''" by (simp add: str_eval)
  have 1: "strip ?s \<noteq> []" by (simp add: st) (simp add: py_def)
  have 2: "skip_match ?re ?a (strip ?s) = Inr False" by (simp add: skip_match_def)
  have 3: "?d (strip ?s) = Some []" by (simp add: st)
  have l: "leading ?s = py '' ''" and t: "trailing ?s = []" by (simp_all add: str_eval)
  from 1 2 3 empty_cached_is_miss
    [where s = ?s and re = ?re and a = ?a and d = ?d and tf = ?tf and w = 0 and l = "[]"]
  have "translate_text ?re ?s ?tf ?a \<lparr>db = ?d, world = 0, stderr = []\<rparr> =
        (Inr (leading ?s @ py ''Bonjour'' @ trailing ?s),
         \<lparr>db = ?d(strip ?s \<mapsto> py ''Bonjour''), world = Suc 0, stderr = []\<rparr>)"
    by simp
  then show ?thesis by (simp add: l t st) (simp add: py_def)
qed

text \<open>
  Claim C9. The key under which \<open>translate_text\<close> looks up and stores is the trimmed
  candidate and nothing else. For two configurations \<open>a1\<close> and \<open>a2\<close> with any language
  pairs (and the same skip pattern): on a hit both return the cached translation, spliced,
  without a call; and what a miss under \<open>a1\<close> stores is stored under the trimmed text, so
  that, when it is not empty, every candidate with the same trimmed text gets it back
  under \<open>a2\<close>, without a call to the provider.
\<close>

theorem cache_key_without_languages:
  "strip s \<noteq> [] \<Longrightarrow> skip_match re a1 (strip s) = Inr False \<Longrightarrow> skip_regex a2 = skip_regex a1 \<Longrightarrow>
   (\<forall>v. db e (strip s) = Some v \<and> v \<noteq> [] \<longrightarrow>
      translate_text re s (translate_func_factory call_deepl a1) a1 e
        = (Inr (leading s @ v @ trailing s), e) \<and>
      translate_text re s (translate_func_factory call_deepl a2) a2 e
        = (Inr (leading s @ v @ trailing s), e)) \<and>
   (\<forall>t w. \<not> truthy (db e (strip s)) \<and>
      call_deepl (world e) (strip s) (src a1) (tgt a1) (api_key a1) = (Inr t, w) \<longrightarrow>
      snd (translate_text re s (translate_func_factory call_deepl a1) a1 e)
        = e\<lparr>db := (db e)(strip s \<mapsto> t), world := w\<rparr> \<and>
      (\<forall>s'. strip s' = strip s \<and> t \<noteq> [] \<longrightarrow>
         translate_text re s' (translate_func_factory call_deepl a2) a2
             (e\<lparr>db := (db e)(strip s \<mapsto> t), world := w\<rparr>)
           = (Inr (leading s' @ t @ trailing s'), e\<lparr>db := (db e)(strip s \<mapsto> t), world := w\<rparr>)))"
proof -
  assume ne: "strip s \<noteq> []" and sk1: "skip_match re a1 (strip s) = Inr False"
    and same: "skip_regex a2 = skip_regex a1"
  have sk2: "skip_match re a2 (strip s) = Inr False"
    using sk1 same by (simp add: skip_match_def)
  have hit: "\<forall>v. db e (strip s) = Some v \<and> v \<noteq> [] \<longrightarrow>
      translate_text re s (translate_func_factory call_deepl a1) a1 e
        = (Inr (leading s @ v @ trailing s), e) \<and>
      translate_text re s (translate_func_factory call_deepl a2) a2 e
        = (Inr (leading s @ v @ trailing s), e)"
    using ne sk1 sk2 by (simp add: translate_text_hit)
  have store: "snd (translate_text re s (translate_func_factory call_deepl a1) a1 e)
        = e\<lparr>db := (db e)(strip s \<mapsto> t), world := w\<rparr>"
    if "\<not> truthy (db e (strip s))"
      "call_deepl (world e) (strip s) (src a1) (tgt a1) (api_key a1) = (Inr t, w)" for t w
  proof -
    have "translate_func_factory call_deepl a1 (world e) (strip s) = (Inr t, w)"
      using that(2) by (simp add: translate_func_factory_def)
    with ne sk1 that(1) show ?thesis
      by (simp add: translate_text_miss
          [where tf = "translate_func_factory call_deepl a1" and t = t and w = w])
  qed
  have again: "translate_text re s' (translate_func_factory call_deepl a2) a2
             (e\<lparr>db := (db e)(strip s \<mapsto> t), world := w\<rparr>)
           = (Inr (leading s' @ t @ trailing s'), e\<lparr>db := (db e)(strip s \<mapsto> t), world := w\<rparr>)"
    if "strip s' = strip s" "t \<noteq> []" for s' t w
  proof -
    have 1: "strip s' \<noteq> []" using ne that(1) by simp
    have 2: "skip_match re a2 (strip s') = Inr False" using sk2 that(1) by simp
    have 3: "db (e\<lparr>db := (db e)(strip s \<mapsto> t), world := w\<rparr>) (strip s') = Some t"
      using that(1) by simp
    from 1 2 3 that(2) show ?thesis by (simp add: translate_text_hit)
  qed
  from hit store again show ?thesis by blast
qed

theorem cache_key_without_languages_witness:
  "translate_text (\<lambda>p x. Inr False) (py ''Hello  '')
     (translate_func_factory (\<lambda>w text s t k. (Inr (text @ py ''-'' @ t), w))
        \<lparr>src = py ''EN'', tgt = py ''FR'', api_key = py ''key'', skip_regex = None\<rparr>)
     \<lparr>src = py ''EN'', tgt = py ''FR'', api_key = py ''key'', skip_regex = None\<rparr>
     \<lparr>db = [py ''Hello'' \<mapsto> py ''Konnichiwa''], world = (), stderr = []\<rparr>
   = (Inr (py ''Konnichiwa  ''),
      \<lparr>db = [py ''Hello'' \<mapsto> py ''Konnichiwa''], world = (), stderr = []\<rparr>)"
proof -
  let ?s = "py ''Hello  ''"
  let ?a1 = "\<lparr>src = py ''EN'', tgt = py ''JA'', api_key = py ''key'', skip_regex = None\<rparr>"
  let ?a2 = "\<lparr>src = py ''EN'', tgt = py ''FR'', api_key = py ''key'', skip_regex = None\<rparr>"
  let ?cd = "\<lambda>(w::unit) (text::pystr) (s::pystr) (t::pystr) (k::pystr).
               (Inr (text @ py ''-'' @ t) :: exn + pystr, w)"
  let ?re = "\<lambda>(p::pystr) (x::pystr). Inr False :: exn + bool"
  let ?e = "\<lparr>db = [py ''Hello'' \<mapsto> py ''Konnichiwa''], world = (), stderr = []\<rparr> :: unit env"
  have st: "strip ?s = py ''Hello''" by (simp add: str_eval)
  have 1: "strip ?s \<noteq> []" by (simp add: st) (simp add: py_def)
  have 2: "skip_match ?re ?a1 (strip ?s) = Inr False" by (simp add: skip_match_def)
  have 3: "skip_regex ?a2 = skip_regex ?a1" by simp
  have 4: "db ?e (strip ?s) = Some (py ''Konnichiwa'') \<and> py ''Konnichiwa'' \<noteq> []"
    by (simp add: st) (simp add: py_def)
  have l: "leading ?s = []" and t: "trailing ?s = py ''  ''" by (simp_all add: str_eval)
  from 1 2 3 4 cache_key_without_languages
    [where s = ?s and re = ?re and ?a1.0 = ?a1 and ?a2.0 = ?a2 and e = ?e and call_deepl = ?cd]
  have "translate_text ?re ?s (translate_func_factory ?cd ?a2) ?a2 ?e
        = (Inr (leading ?s @ py ''Konnichiwa'' @ trailing ?s), ?e)"
    by blast
  then show ?thesis by (simp add: l t) (simp add: py_def)
qed

section \<open>Properties of the walk\<close>

lemma walk_shape:
  fixes t :: "('k, 'a) tree" and kvs :: "('k \<times> ('k, 'a) tree) list" and xs :: "('k, 'a) tree list"
  shows "walk re tf a t e = (Inr t', e') \<Longrightarrow>
     same_but_strings (\<lambda>s s'. \<exists>e1 e2. translate_text re s tf a e1 = (Inr s', e2)) t t'"
    and "walk_items re tf a kvs e = (Inr kvs', e') \<Longrightarrow>
     same_items (\<lambda>s s'. \<exists>e1 e2. translate_text re s tf a e1 = (Inr s', e2)) kvs kvs'"
    and "walk_list re tf a xs e = (Inr xs', e') \<Longrightarrow>
     same_list (\<lambda>s s'. \<exists>e1 e2. translate_text re s tf a e1 = (Inr s', e2)) xs xs'"
proof (induction re tf a t e and re tf a kvs e and re tf a xs e
    arbitrary: t' e' and kvs' e' and xs' e' rule: walk_walk_items_walk_list.induct)
  case (1 re tf a kvs e)
  then show ?case by (auto split: prod.splits sum.splits)
next
  case (2 re tf a xs e)
  then show ?case by (auto split: prod.splits sum.splits)
next
  case (3 re tf a s e)
  then show ?case by (auto split: prod.splits sum.splits) blast
next
  case (4 re tf a x e)
  then show ?case by auto
next
  case (5 re tf a e)
  then show ?case by auto
next
  case (6 re tf a k v kvs e)
  then show ?case by (auto split: prod.splits sum.splits)
next
  case (7 re tf a e)
  then show ?case by auto
next
  case (8 re tf a x xs e)
  then show ?case by (auto split: prod.splits sum.splits)
qed


lemma translate_text_pure:
  assumes agree: "cache_agrees f (db e)"
    and total: "\<And>err. skip_match re a (strip s) \<noteq> Inl err"
  shows "\<exists>e'. translate_text re s (pure_client f) a e = (Inr (expected re a f s), e')
     \<and> cache_agrees f (db e')"
proof (cases "strip s = []")
  case True
  then show ?thesis using agree by (simp add: translate_text_blank expected_def)
next
  case ne: False
  obtain b where b: "skip_match re a (strip s) = Inr b"
    using total by (cases "skip_match re a (strip s)") auto
  show ?thesis
  proof (cases b)
    case True
    with b ne agree show ?thesis by (simp add: translate_text_skip expected_def)
  next
    case False
    with b have sk: "skip_match re a (strip s) = Inr False" by simp
    show ?thesis
    proof (cases "truthy (db e (strip s))")
      case True
      then obtain v where v: "db e (strip s) = Some v" "v \<noteq> []"
        by (cases "db e (strip s)") auto
      with agree have "f (strip s) = Inr v" by (auto simp: cache_agrees_def)
      with ne sk v agree show ?thesis by (simp add: translate_text_hit expected_def)
    next
      case miss: False
      have call: "pure_client f (world e) (strip s) = (f (strip s), world e)"
        by (simp add: pure_client_def)
      show ?thesis
      proof (cases "f (strip s)")
        case (Inl err)
        with ne sk miss call agree show ?thesis
          by (simp add: translate_text_fail [where w = "world e"] expected_def)
      next
        case (Inr t)
        with agree have "cache_agrees f ((db e)(strip s \<mapsto> t))"
          by (auto simp: cache_agrees_def)
        with Inr ne sk miss call show ?thesis
          by (simp add: translate_text_miss [where w = "world e"] expected_def)
      qed
    qed
  qed
qed

lemma walk_pure_aux:
  fixes t :: "('k, 'a) tree" and kvs :: "('k \<times> ('k, 'a) tree) list" and xs :: "('k, 'a) tree list"
  shows "tf = pure_client f \<Longrightarrow> (\<And>x err. skip_match re a x \<noteq> Inl err) \<Longrightarrow>
      cache_agrees f (db e) \<Longrightarrow>
      \<exists>e'. walk re tf a t e = (Inr (map_strings (expected re a f) t), e')
         \<and> cache_agrees f (db e')"
    and "tf = pure_client f \<Longrightarrow> (\<And>x err. skip_match re a x \<noteq> Inl err) \<Longrightarrow>
      cache_agrees f (db e) \<Longrightarrow>
      \<exists>e'. walk_items re tf a kvs e = (Inr (map_strings_items (expected re a f) kvs), e')
         \<and> cache_agrees f (db e')"
    and "tf = pure_client f \<Longrightarrow> (\<And>x err. skip_match re a x \<noteq> Inl err) \<Longrightarrow>
      cache_agrees f (db e) \<Longrightarrow>
      \<exists>e'. walk_list re tf a xs e = (Inr (map_strings_list (expected re a f) xs), e')
         \<and> cache_agrees f (db e')"
proof (induction re tf a t e and re tf a kvs e and re tf a xs e
    rule: walk_walk_items_walk_list.induct)
  case (1 re tf a kvs e)
  then show ?case by fastforce
next
  case (2 re tf a xs e)
  then show ?case by fastforce
next
  case (3 re tf a s e)
  from translate_text_pure [OF 3(3) 3(2), of s] 3(1) show ?case by auto
next
  case (4 re tf a x e)
  then show ?case by auto
next
  case (5 re tf a e)
  then show ?case by auto
next
  case (6 re tf a k v kvs e)
  from 6(1) [OF 6(3) 6(4) 6(5)] obtain e1 where
    1: "walk re tf a v e = (Inr (map_strings (expected re a f) v), e1)"
    and 2: "cache_agrees f (db e1)" by blast
  from 6(2) [OF 1 [symmetric] refl 6(3) 6(4) 2] 1 show ?case by auto
next
  case (7 re tf a e)
  then show ?case by auto
next
  case (8 re tf a x xs e)
  from 8(1) [OF 8(3) 8(4) 8(5)] obtain e1 where
    1: "walk re tf a x e = (Inr (map_strings (expected re a f) x), e1)"
    and 2: "cache_agrees f (db e1)" by blast
  from 8(2) [OF 1 [symmetric] refl 8(3) 8(4) 2] 1 show ?case by auto
qed


lemma walk_returns:
  fixes t :: "('k, 'a) tree" and kvs :: "('k \<times> ('k, 'a) tree) list" and xs :: "('k, 'a) tree list"
  shows "(\<And>x err. skip_match re a x \<noteq> Inl err) \<Longrightarrow> \<exists>t' e'. walk re tf a t e = (Inr t', e')"
    and "(\<And>x err. skip_match re a x \<noteq> Inl err) \<Longrightarrow> \<exists>kvs' e'. walk_items re tf a kvs e = (Inr kvs', e')"
    and "(\<And>x err. skip_match re a x \<noteq> Inl err) \<Longrightarrow> \<exists>xs' e'. walk_list re tf a xs e = (Inr xs', e')"
proof (induction re tf a t e and re tf a kvs e and re tf a xs e
    rule: walk_walk_items_walk_list.induct)
  case (1 re tf a kvs e)
  then show ?case by fastforce
next
  case (2 re tf a xs e)
  then show ?case by fastforce
next
  case (3 re tf a s e)
  from translate_text_returns [of re a s tf e] 3 obtain r where
    "fst (translate_text re s tf a e) = Inr r" by blast
  then show ?case by (cases "translate_text re s tf a e") auto
next
  case (4 re tf a x e)
  then show ?case by auto
next
  case (5 re tf a e)
  then show ?case by auto
next
  case (6 re tf a k v kvs e)
  from 6(1) [OF 6(3)] obtain v' e1 where
    1: "walk re tf a v e = (Inr v', e1)" by blast
  from 6(2) [OF 1 [symmetric] refl 6(3)] 1 show ?case by auto
next
  case (7 re tf a e)
  then show ?case by auto
next
  case (8 re tf a x xs e)
  from 8(1) [OF 8(3)] obtain x' e1 where
    1: "walk re tf a x e = (Inr x', e1)" by blast
  from 8(2) [OF 1 [symmetric] refl 8(3)] 1 show ?case by auto
qed

lemma map_strings_ident:
  fixes t :: "('k, 'a) tree" and kvs :: "('k \<times> ('k, 'a) tree) list" and xs :: "('k, 'a) tree list"
  shows "(\<And>s. g s = s) \<Longrightarrow> map_strings g t = t"
    and "(\<And>s. g s = s) \<Longrightarrow> map_strings_items g kvs = kvs"
    and "(\<And>s. g s = s) \<Longrightarrow> map_strings_list g xs = xs"
  by (induction g t and g kvs and g xs rule: map_strings_map_strings_items_map_strings_list.induct)
     auto

lemma expected_ident: "expected re a Inr s = s"
  using split_strip [of s] by (simp add: expected_def)

lemma walk_pure:
  "cache_agrees f (db e) \<Longrightarrow> (\<And>x err. skip_match re a x \<noteq> Inl err) \<Longrightarrow>
   fst (walk re (pure_client f) a t e) = Inr (map_strings (expected re a f) t)"
  using walk_pure_aux(1) [OF refl, of re a f e t] by auto

text \<open>
  Claim C6. Whenever \<open>walk\<close> returns, its result differs from the document at most in
  the string leaves: every mapping has the same keys in the same order (no key is
  translated), every sequence the same length with its elements walked in place, every
  leaf that is not a string is the leaf it was, and every string leaf is what
  \<open>translate_text\<close> returned for it. And \<open>walk\<close> does return, unless the skip pattern
  makes the search raise.
\<close>

theorem walk_translates_only_strings:
  "(fst (walk re tf a t e) = Inr t' \<longrightarrow>
      same_but_strings (\<lambda>s s'. \<exists>e1 e2. translate_text re s tf a e1 = (Inr s', e2)) t t') \<and>
   ((\<forall>x err. skip_match re a x \<noteq> Inl err) \<longrightarrow> (\<exists>t'. fst (walk re tf a t e) = Inr t'))"
proof -
  have "same_but_strings (\<lambda>s s'. \<exists>e1 e2. translate_text re s tf a e1 = (Inr s', e2)) t t'"
    if "fst (walk re tf a t e) = Inr t'"
  proof -
    from that obtain e' where "walk re tf a t e = (Inr t', e')"
      by (cases "walk re tf a t e") auto
    then show ?thesis by (rule walk_shape(1))
  qed
  moreover have "\<exists>t'. fst (walk re tf a t e) = Inr t'"
    if "\<forall>x err. skip_match re a x \<noteq> Inl err"
  proof -
    from that have "\<exists>t' e'. walk re tf a t e = (Inr t', e')"
      by (intro walk_returns(1)) blast
    then show ?thesis by auto
  qed
  ultimately show ?thesis by blast
qed

theorem walk_translates_only_strings_witness:
  "same_but_strings
     (\<lambda>s s'. \<exists>e1 e2. translate_text (\<lambda>p x. Inr False) s
        (pure_client (\<lambda>text. Inr (py ''ja:'' @ text)))
        \<lparr>src = py ''EN'', tgt = py ''JA'', api_key = py ''key'', skip_regex = None\<rparr> e1
        = (Inr s', e2 :: unit env))
     (TDict [(py ''name'', TStr (py ''Sword'')),
             (py ''stats'', TList [TOther (PyInt 3), TOther (PyBool True), TOther PyNone]),
             (py ''lore'', TDict [(py ''text'', TStr (py '' Old ''))])])
     (TDict [(py ''name'', TStr (py ''ja:Sword'')),
             (py ''stats'', TList [TOther (PyInt 3), TOther (PyBool True), TOther PyNone]),
             (py ''lore'', TDict [(py ''text'', TStr (py '' ja:Old ''))])])"
proof -
  let ?re = "\<lambda>(p::pystr) (x::pystr). Inr False :: exn + bool"
  let ?f = "\<lambda>text::pystr. Inr (py ''ja:'' @ text) :: exn + pystr"
  let ?a = "\<lparr>src = py ''EN'', tgt = py ''JA'', api_key = py ''key'', skip_regex = None\<rparr>"
  let ?e = "\<lparr>db = Map.empty, world = (), stderr = []\<rparr> :: unit env"
  let ?t = "TDict [(py ''name'', TStr (py ''Sword'')),
             (py ''stats'', TList [TOther (PyInt 3), TOther (PyBool True), TOther PyNone]),
             (py ''lore'', TDict [(py ''text'', TStr (py '' Old ''))])]"
  let ?t' = "TDict [(py ''name'', TStr (py ''ja:Sword'')),
             (py ''stats'', TList [TOther (PyInt 3), TOther (PyBool True), TOther PyNone]),
             (py ''lore'', TDict [(py ''text'', TStr (py '' ja:Old ''))])]"
  have 1: "expected ?re ?a ?f (py ''Sword'') = py ''ja:Sword''"
    by (simp add: expected_def skip_match_def str_eval)
  have 2: "expected ?re ?a ?f (py '' Old '') = py '' ja:Old ''"
    by (simp add: expected_def skip_match_def str_eval)
  have "fst (walk ?re (pure_client ?f) ?a ?t ?e) = Inr (map_strings (expected ?re ?a ?f) ?t)"
    by (rule walk_pure) (simp_all add: cache_agrees_def skip_match_def)
  then have "fst (walk ?re (pure_client ?f) ?a ?t ?e) = Inr ?t'"
    by (simp add: 1 2)
  with walk_translates_only_strings
    [where re = ?re and tf = "pure_client ?f" and a = ?a and t = ?t and e = ?e and t' = ?t']
  show ?thesis by blast
qed

lemma same_items_keys: "same_items P kvs kvs' \<Longrightarrow> map fst kvs' = map fst kvs"
  by (induction kvs arbitrary: kvs') (auto split: list.splits)

lemma same_but_strings_keys: "same_but_strings P t t' \<Longrightarrow> dict_keys t' = dict_keys t"
  by (cases t; cases t') (auto dest: same_items_keys)

lemma json_keeps_key_order:
  "fst (translate_json re data tf a e) = Inr w \<Longrightarrow>
   (\<exists>new. w = JsonDump new False 2 \<and> emitted w = new \<and>
      same_but_strings (\<lambda>s s'. \<exists>e1 e2. translate_text re s tf a e1 = (Inr s', e2)) data new) \<and>
   dict_keys (emitted w) = dict_keys data"
proof -
  assume r: "fst (translate_json re data tf a e) = Inr w"
  obtain x e' where w: "walk re tf a data e = (x, e')" by (cases "walk re tf a data e")
  with r obtain new where new: "x = Inr new" "w = JsonDump new False 2"
    by (cases x) (auto simp: translate_json_def)
  from w new(1) have
    "same_but_strings (\<lambda>s s'. \<exists>e1 e2. translate_text re s tf a e1 = (Inr s', e2)) data new"
    by (auto intro: walk_shape(1))
  with new show ?thesis by (auto dest: same_but_strings_keys)
qed

text \<open>
  Claim C5 fails on the YAML path. A document whose mapping has the keys \<^verbatim>\<open>b\<close>, \<^verbatim>\<open>a\<close>
  in this order, under the identity translation function and an empty cache:
  \<^verbatim>\<open>translate_yaml\<close> hands the document itself to \<^verbatim>\<open>yaml.safe_dump\<close>, which writes
  the keys in the order \<^verbatim>\<open>a\<close>, \<^verbatim>\<open>b\<close>, while \<^verbatim>\<open>translate_json\<close> on the same document
  writes them in the order \<^verbatim>\<open>b\<close>, \<^verbatim>\<open>a\<close>.
\<close>

theorem yaml_keys_reordered:
  "fst (translate_yaml (\<lambda>p x. Inr False)
          (TDict [(KStr (py ''b''), TStr (py ''x'')), (KStr (py ''a''), TOther (PyInt 1))])
          (pure_client Inr)
          \<lparr>src = py ''EN'', tgt = py ''JA'', api_key = py ''key'', skip_regex = None\<rparr>
          \<lparr>db = Map.empty, world = (), stderr = []\<rparr>)
     = Inr (YamlSafeDump
         (TDict [(KStr (py ''b''), TStr (py ''x'')), (KStr (py ''a''), TOther (PyInt 1))]) True) \<and>
   emitted (YamlSafeDump
       (TDict [(KStr (py ''b''), TStr (py ''x'')), (KStr (py ''a''), TOther (PyInt 1))]) True)
     = TDict [(KStr (py ''a''), TOther (PyInt 1)), (KStr (py ''b''), TStr (py ''x''))] \<and>
   dict_keys (emitted (YamlSafeDump
       (TDict [(KStr (py ''b''), TStr (py ''x'')), (KStr (py ''a''), TOther (PyInt 1))]) True))
     \<noteq> dict_keys (TDict [(KStr (py ''b''), TStr (py ''x'')), (KStr (py ''a''), TOther (PyInt 1))]) \<and>
   fst (translate_json (\<lambda>p x. Inr False)
          (TDict [(KStr (py ''b''), TStr (py ''x'')), (KStr (py ''a''), TOther (PyInt 1))])
          (pure_client Inr)
          \<lparr>src = py ''EN'', tgt = py ''JA'', api_key = py ''key'', skip_regex = None\<rparr>
          \<lparr>db = Map.empty, world = (), stderr = []\<rparr>)
     = Inr (JsonDump
         (TDict [(KStr (py ''b''), TStr (py ''x'')), (KStr (py ''a''), TOther (PyInt 1))]) False 2) \<and>
   emitted (JsonDump
       (TDict [(KStr (py ''b''), TStr (py ''x'')), (KStr (py ''a''), TOther (PyInt 1))]) False 2)
     = TDict [(KStr (py ''b''), TStr (py ''x'')), (KStr (py ''a''), TOther (PyInt 1 :: scalar))]"
proof -
  let ?re = "\<lambda>(p::pystr) (x::pystr). Inr False :: exn + bool"
  let ?a = "\<lparr>src = py ''EN'', tgt = py ''JA'', api_key = py ''key'', skip_regex = None\<rparr>"
  let ?e = "\<lparr>db = Map.empty, world = (), stderr = []\<rparr> :: unit env"
  let ?d = "TDict [(KStr (py ''b''), TStr (py ''x'')), (KStr (py ''a''), TOther (PyInt 1))]
    :: (pykey, scalar) tree"
  have "fst (walk ?re (pure_client Inr) ?a ?d ?e) = Inr (map_strings (expected ?re ?a Inr) ?d)"
    by (rule walk_pure) (simp_all add: cache_agrees_def skip_match_def)
  then have w: "fst (walk ?re (pure_client Inr) ?a ?d ?e) = Inr ?d"
    by (simp add: expected_ident)
  then have 1: "fst (translate_yaml ?re ?d (pure_client Inr) ?a ?e) = Inr (YamlSafeDump ?d True)"
    by (cases "walk ?re (pure_client Inr) ?a ?d ?e") (auto simp: translate_yaml_def)
  have 2: "emitted (YamlSafeDump ?d True)
      = TDict [(KStr (py ''a''), TOther (PyInt 1)), (KStr (py ''b''), TStr (py ''x''))]"
    by (simp add: sorted_or_kept_def py_def)
  have 3: "dict_keys (emitted (YamlSafeDump ?d True)) \<noteq> dict_keys ?d"
    by (simp add: sorted_or_kept_def py_def)
  from w have 4: "fst (translate_json ?re ?d (pure_client Inr) ?a ?e) = Inr (JsonDump ?d False 2)"
    by (cases "walk ?re (pure_client Inr) ?a ?d ?e") (auto simp: translate_json_def)
  have 5: "emitted (JsonDump ?d False 2) = ?d" by simp
  from 1 2 3 4 5 show ?thesis by blast
qed

text \<open>
  With keys that cannot be compared (\<^verbatim>\<open>b\<close>, \<^verbatim>\<open>1\<close>, \<^verbatim>\<open>a\<close>) the sort raises and the
  items are written in the order they had.
\<close>

lemma yaml_mixed_keys_kept:
  "emitted (YamlSafeDump
       (TDict [(KStr (py ''b''), TStr (py ''x'')), (KInt 1, TStr (py ''y'')),
               (KStr (py ''a''), TOther (PyInt 1 :: scalar))]) True)
     = TDict [(KStr (py ''b''), TStr (py ''x'')), (KInt 1, TStr (py ''y'')),
              (KStr (py ''a''), TOther (PyInt 1))]"
  by (simp add: sorted_or_kept_def)

text \<open>
  Claim C1. \<open>translate_text\<close> returns a string whatever the translation function does;
  only a skip pattern that makes the search raise makes it raise. When the translation
  function raises, the error is printed to the diagnostic stream, the cache is left as it
  was and the candidate is returned unchanged. So a file is written in full: with a
  translation function that raises for some texts and returns for the others,
  \<^verbatim>\<open>translate_json\<close> hands to \<^verbatim>\<open>json.dump\<close> the document in which every candidate
  whose translation failed is as it was and every other candidate is translated.
\<close>

theorem translate_error_is_contained:
  "((\<forall>err. skip_match re a (strip s) \<noteq> Inl err) \<longrightarrow>
      (\<exists>r. fst (translate_text re s tf a e) = Inr r)) \<and>
   (strip s \<noteq> [] \<and> skip_match re a (strip s) = Inr False \<and> \<not> truthy (db e (strip s)) \<and>
    tf (world e) (strip s) = (Inl err, w) \<longrightarrow>
      translate_text re s tf a e =
        (Inr s, e\<lparr>world := w,
                  stderr := stderr e @ [py ''Translate error: '' @ str_of_exn err]\<rparr>)) \<and>
   (cache_agrees f (db e) \<and> (\<forall>x err. skip_match re a x \<noteq> Inl err) \<longrightarrow>
      fst (translate_json re data (pure_client f) a e) =
        Inr (JsonDump (map_strings (expected re a f) data) False 2))"
proof -
  have 1: "\<exists>r. fst (translate_text re s tf a e) = Inr r"
    if "\<forall>err. skip_match re a (strip s) \<noteq> Inl err"
    using that by (intro translate_text_returns) blast
  have 2: "translate_text re s tf a e =
        (Inr s, e\<lparr>world := w,
                  stderr := stderr e @ [py ''Translate error: '' @ str_of_exn err]\<rparr>)"
    if "strip s \<noteq> []" "skip_match re a (strip s) = Inr False" "\<not> truthy (db e (strip s))"
      "tf (world e) (strip s) = (Inl err, w)"
    using that by (simp add: translate_text_fail)
  have 3: "fst (translate_json re data (pure_client f) a e) =
        Inr (JsonDump (map_strings (expected re a f) data) False 2)"
    if "cache_agrees f (db e)" "\<forall>x err. skip_match re a x \<noteq> Inl err"
  proof -
    have "fst (walk re (pure_client f) a data e) = Inr (map_strings (expected re a f) data)"
      using that by (intro walk_pure) auto
    then show ?thesis
      by (cases "walk re (pure_client f) a data e") (auto simp: translate_json_def)
  qed
  from 1 2 3 show ?thesis by blast
qed

theorem translate_error_is_contained_witness:
  "fst (translate_json (\<lambda>p x. Inr False)
          (TList [TStr (py ''one''), TStr (py '' two''), TStr (py ''three''),
                  TStr (py ''four ''), TStr (py ''five'')])
          (pure_client (\<lambda>text. if text = py ''three'' then Inl (Exception (py ''503''))
                               else Inr (py ''<'' @ text @ py ''>'')))
          \<lparr>src = py ''EN'', tgt = py ''JA'', api_key = py ''key'', skip_regex = None\<rparr>
          \<lparr>db = Map.empty, world = (), stderr = []\<rparr>)
   = Inr (JsonDump
       (TList [TStr (py ''<one>''), TStr (py '' <two>''), TStr (py ''three''),
               TStr (py ''<four> ''), TStr (py ''<five>'')] :: (pystr, scalar) tree)
       False 2)"
proof -
  let ?re = "\<lambda>(p::pystr) (x::pystr). Inr False :: exn + bool"
  let ?a = "\<lparr>src = py ''EN'', tgt = py ''JA'', api_key = py ''key'', skip_regex = None\<rparr>"
  let ?e = "\<lparr>db = Map.empty, world = (), stderr = []\<rparr> :: unit env"
  let ?f = "\<lambda>text. if text = py ''three'' then Inl (Exception (py ''503''))
                               else Inr (py ''<'' @ text @ py ''>'')"
  let ?d = "TList [TStr (py ''one''), TStr (py '' two''), TStr (py ''three''),
                  TStr (py ''four ''), TStr (py ''five'')] :: (pystr, scalar) tree"
  have x: "expected ?re ?a ?f (py ''one'') = py ''<one>''"
    "expected ?re ?a ?f (py '' two'') = py '' <two>''"
    "expected ?re ?a ?f (py ''three'') = py ''three''"
    "expected ?re ?a ?f (py ''four '') = py ''<four> ''"
    "expected ?re ?a ?f (py ''five'') = py ''<five>''"
    by (simp_all add: expected_def skip_match_def str_eval)
  have "cache_agrees ?f (db ?e) \<and> (\<forall>x err. skip_match ?re ?a x \<noteq> Inl err)"
    by (simp add: cache_agrees_def skip_match_def)
  with translate_error_is_contained [where re = ?re and a = ?a and e = ?e and f = ?f and data = ?d]
  have "fst (translate_json ?re ?d (pure_client ?f) ?a ?e) =
        Inr (JsonDump (map_strings (expected ?re ?a ?f) ?d) False 2)"
    by blast
  then show ?thesis by (simp add: x)
qed

section \<open>Properties of key=value files\<close>

lemma lines_from_shape:
  "line \<in> set (lines_from cur cs) \<Longrightarrow> 10 \<notin> set cur \<Longrightarrow>
   line \<noteq> [] \<and> 10 \<notin> set (butlast line)"
proof (induction cs arbitrary: cur)
  case Nil
  then show ?case by (auto split: if_splits dest: in_set_butlastD)
next
  case (Cons c cs)
  show ?case
  proof (cases "c = 10")
    case True
    with Cons.prems(1) consider "line = cur @ [10]" | "line \<in> set (lines_from [] cs)"
      by auto
    then show ?thesis
    proof cases
      case 1
      with Cons.prems(2) show ?thesis by simp
    next
      case 2
      then show ?thesis by (rule Cons.IH) simp
    qed
  next
    case False
    with Cons.prems(1) have "line \<in> set (lines_from (cur @ [c]) cs)" by simp
    then show ?thesis by (rule Cons.IH) (use False Cons.prems(2) in simp)
  qed
qed

lemma file_lines_shape:
  "line \<in> set (file_lines content) \<Longrightarrow> line \<noteq> [] \<and> 10 \<notin> set (butlast line)"
  unfolding file_lines_def by (erule lines_from_shape) simp

lemma concat_lines_from: "concat (lines_from cur cs) = cur @ cs"
  by (induction cs arbitrary: cur) auto

lemma concat_file_lines: "concat (file_lines content) = universal_newlines content"
  by (simp add: file_lines_def concat_lines_from)

lemma split_eq_join:
  "61 \<in> set line \<Longrightarrow> line = fst (split_eq line) @ [61] @ snd (split_eq line)
     \<and> 61 \<notin> set (fst (split_eq line))"
proof -
  assume "61 \<in> set line"
  then have ne: "dropWhile (\<lambda>c. c \<noteq> 61) line \<noteq> []"
    by auto
  then have "hd (dropWhile (\<lambda>c. c \<noteq> 61) line) = 61"
    using hd_dropWhile [of "\<lambda>c. c \<noteq> 61" line] by simp
  with ne have "dropWhile (\<lambda>c. c \<noteq> 61) line = 61 # tl (dropWhile (\<lambda>c. c \<noteq> 61) line)"
    by (cases "dropWhile (\<lambda>c. c \<noteq> 61) line") auto
  then have "line = takeWhile (\<lambda>c. c \<noteq> 61) line @ 61 # tl (dropWhile (\<lambda>c. c \<noteq> 61) line)"
    by (metis takeWhile_dropWhile_id)
  moreover have "61 \<notin> set (takeWhile (\<lambda>c. c \<noteq> 61) line)"
    by (auto dest: set_takeWhileD)
  ultimately show ?thesis by (simp add: split_eq_def)
qed


lemma rstrip_nl_file_line:
  assumes "10 \<notin> set (butlast val)"
  shows "10 \<notin> set (rstrip_nl val) \<and> (val = rstrip_nl val \<or> val = rstrip_nl val @ [10])"
proof (cases val rule: rev_cases)
  case Nil
  then show ?thesis by (simp add: rstrip_nl_def)
next
  case (snoc ys y)
  with assms have ys: "10 \<notin> set ys" by simp
  then have keep: "dropWhile (\<lambda>c. c = 10) (rev ys) = rev ys"
    by (cases "rev ys") (auto simp: dropWhile_eq_Nil_conv)
  show ?thesis
  proof (cases "y = 10")
    case True
    with snoc keep ys show ?thesis by (simp add: rstrip_nl_def)
  next
    case False
    with snoc ys show ?thesis by (simp add: rstrip_nl_def)
  qed
qed

lemma startswith_strip:
  "startswith line (py ''#'') \<Longrightarrow> startswith (strip line) (py ''#'')"
proof -
  assume "startswith line (py ''#'')"
  then obtain rest where line: "line = 35 # rest"
    by (auto simp: startswith_def py_def prefix_def)
  have ns: "\<not> is_space 35" by (simp add: is_space_def)
  then have l: "lstrip line = line" by (simp add: line lstrip_def)
  have "strip line \<noteq> []"
    using ns line by (auto simp: strip_Nil_iff)
  then have "hd (strip line) = hd (lstrip line)"
    using lstrip_split [of line] by (metis hd_append2)
  with l line \<open>strip line \<noteq> []\<close> show ?thesis
    by (cases "strip line") (auto simp: startswith_def py_def)
qed

lemma properties_line_cases:
  "(startswith line (py ''#'') \<or> startswith (strip line) (py ''#'') \<or> 61 \<notin> set line \<longrightarrow>
      properties_line re tf a line e = (Inr line, e)) \<and>
   (\<not> startswith (strip line) (py ''#'') \<and> 61 \<in> set line \<longrightarrow>
      line = fst (split_eq line) @ py ''='' @ snd (split_eq line) \<and>
      61 \<notin> set (fst (split_eq line)) \<and>
      properties_line re tf a line e =
        (case translate_text re (rstrip_nl (snd (split_eq line))) tf a e of
           (Inl err, e') \<Rightarrow> (Inl err, e')
         | (Inr newval, e') \<Rightarrow> (Inr (fst (split_eq line) @ py ''='' @ newval @ [10]), e')) \<and>
      (line \<in> set (file_lines content) \<longrightarrow>
         10 \<notin> set (rstrip_nl (snd (split_eq line))) \<and>
         (snd (split_eq line) = rstrip_nl (snd (split_eq line)) \<or>
          snd (split_eq line) = rstrip_nl (snd (split_eq line)) @ [10])))"
proof -
  have eq: "py ''='' = [61]" by (simp add: py_def)
  have verbatim: "properties_line re tf a line e = (Inr line, e)"
    if "startswith line (py ''#'') \<or> startswith (strip line) (py ''#'') \<or> 61 \<notin> set line"
    using that by (auto simp: properties_line_def dest: startswith_strip)
  have other: "line = fst (split_eq line) @ py ''='' @ snd (split_eq line) \<and>
      61 \<notin> set (fst (split_eq line)) \<and>
      properties_line re tf a line e =
        (case translate_text re (rstrip_nl (snd (split_eq line))) tf a e of
           (Inl err, e') \<Rightarrow> (Inl err, e')
         | (Inr newval, e') \<Rightarrow> (Inr (fst (split_eq line) @ py ''='' @ newval @ [10]), e')) \<and>
      (line \<in> set (file_lines content) \<longrightarrow>
         10 \<notin> set (rstrip_nl (snd (split_eq line))) \<and>
         (snd (split_eq line) = rstrip_nl (snd (split_eq line)) \<or>
          snd (split_eq line) = rstrip_nl (snd (split_eq line)) @ [10]))"
    if nc: "\<not> startswith (strip line) (py ''#'')" and sep: "61 \<in> set line"
  proof -
    note j = split_eq_join [OF sep]
    have 1: "line = fst (split_eq line) @ py ''='' @ snd (split_eq line)"
      using j by (simp add: eq)
    have 2: "61 \<notin> set (fst (split_eq line))" using j by simp
    have 3: "properties_line re tf a line e =
        (case translate_text re (rstrip_nl (snd (split_eq line))) tf a e of
           (Inl err, e') \<Rightarrow> (Inl err, e')
         | (Inr newval, e') \<Rightarrow> (Inr (fst (split_eq line) @ py ''='' @ newval @ [10]), e'))"
      using nc sep by (simp add: properties_line_def Let_def case_prod_unfold)
    have 4: "10 \<notin> set (rstrip_nl (snd (split_eq line))) \<and>
         (snd (split_eq line) = rstrip_nl (snd (split_eq line)) \<or>
          snd (split_eq line) = rstrip_nl (snd (split_eq line)) @ [10])"
      if "line \<in> set (file_lines content)"
    proof -
      from file_lines_shape [OF that] have "10 \<notin> set (butlast line)" by simp
      moreover have "butlast line = fst (split_eq line) @ [61] @ butlast (snd (split_eq line))
          \<or> snd (split_eq line) = []"
        using j by (metis append_Cons append_Nil butlast_append butlast.simps(2) list.distinct(1))
      ultimately have "10 \<notin> set (butlast (snd (split_eq line)))"
        by auto
      then show ?thesis by (rule rstrip_nl_file_line)
    qed
    from 1 2 3 4 show ?thesis by blast
  qed
  from verbatim other show ?thesis by blast
qed


lemma properties_line_pure:
  assumes agree: "cache_agrees f (db e)"
    and total: "\<And>x err. skip_match re a x \<noteq> Inl err"
  shows "\<exists>e'. properties_line re (pure_client f) a line e = (Inr (expected_line re a f line), e')
     \<and> cache_agrees f (db e')"
proof (cases "startswith (strip line) (py ''#'') \<or> 61 \<notin> set line")
  case True
  with agree show ?thesis
    by (auto simp: properties_line_def expected_line_def)
next
  case False
  from translate_text_pure [OF agree total, of "rstrip_nl (snd (split_eq line))"]
  obtain e' where
    "translate_text re (rstrip_nl (snd (split_eq line))) (pure_client f) a e
       = (Inr (expected re a f (rstrip_nl (snd (split_eq line)))), e')"
    and "cache_agrees f (db e')" by blast
  with False show ?thesis
    by (simp add: properties_line_def expected_line_def Let_def case_prod_unfold)
qed

lemma properties_loop_pure:
  assumes total: "\<And>x err. skip_match re a x \<noteq> Inl err"
  shows "cache_agrees f (db e) \<Longrightarrow>
     \<exists>e'. properties_loop re (pure_client f) a ls e = (Inr (map (expected_line re a f) ls), e')
        \<and> cache_agrees f (db e')"
proof (induction ls arbitrary: e)
  case Nil
  then show ?case by simp
next
  case (Cons line rest)
  from properties_line_pure [OF Cons.prems total, of line] obtain e1 where
    1: "properties_line re (pure_client f) a line e = (Inr (expected_line re a f line), e1)"
    and 2: "cache_agrees f (db e1)" by blast
  from Cons.IH [OF 2] obtain e' where
    3: "properties_loop re (pure_client f) a rest e1 = (Inr (map (expected_line re a f) rest), e')"
    and 4: "cache_agrees f (db e')" by blast
  from 1 3 4 show ?case by simp
qed

lemma properties_line_returns:
  assumes "\<And>x err. skip_match re a x \<noteq> Inl err"
  shows "\<exists>out e'. properties_line re tf a line e = (Inr out, e')"
proof -
  from translate_text_returns [of re a "rstrip_nl (snd (split_eq line))" tf e] assms
  obtain r where "fst (translate_text re (rstrip_nl (snd (split_eq line))) tf a e) = Inr r"
    by blast
  then show ?thesis
    by (cases "translate_text re (rstrip_nl (snd (split_eq line))) tf a e")
       (auto simp: properties_line_def Let_def case_prod_unfold)
qed

lemma properties_loop_returns:
  assumes total: "\<And>x err. skip_match re a x \<noteq> Inl err"
  shows "\<exists>outs e'. properties_loop re tf a ls e = (Inr outs, e')"
proof (induction ls arbitrary: e)
  case Nil
  then show ?case by simp
next
  case (Cons line rest)
  from properties_line_returns [OF total, of tf line e] obtain out e1 where
    1: "properties_line re tf a line e = (Inr out, e1)" by blast
  from Cons.IH [of e1] obtain outs e' where
    2: "properties_loop re tf a rest e1 = (Inr outs, e')" by blast
  from 1 2 show ?case by simp
qed

lemma properties_loop_chain:
  "properties_loop re tf a ls e = (Inr outs, e') \<Longrightarrow>
   \<exists>es. length outs = length ls \<and> length es = Suc (length ls) \<and> es ! 0 = e \<and>
     es ! length ls = e' \<and>
     (\<forall>i < length ls. properties_line re tf a (ls ! i) (es ! i) = (Inr (outs ! i), es ! Suc i))"
proof (induction ls arbitrary: e outs e')
  case Nil
  then have "outs = []" "e' = e" by simp_all
  then have "length outs = length ([]::pystr list) \<and> length [e] = Suc (length ([]::pystr list)) \<and>
     [e] ! 0 = e \<and> [e] ! length ([]::pystr list) = e'"
    by simp
  then show ?case by (intro exI [of _ "[e]"]) simp
next
  case (Cons line rest)
  from Cons.prems obtain out e1 outs' where
    1: "properties_line re tf a line e = (Inr out, e1)"
    and 2: "properties_loop re tf a rest e1 = (Inr outs', e')"
    and 3: "outs = out # outs'"
    by (auto split: prod.splits sum.splits)
  from Cons.IH [OF 2] obtain es where es:
    "length outs' = length rest" "length es = Suc (length rest)" "es ! 0 = e1"
    "es ! length rest = e'"
    "\<forall>i < length rest. properties_line re tf a (rest ! i) (es ! i) = (Inr (outs' ! i), es ! Suc i)"
    by blast
  have step: "properties_line re tf a ((line # rest) ! i) ((e # es) ! i)
      = (Inr (outs ! i), (e # es) ! Suc i)" if "i < length (line # rest)" for i
  proof (cases i)
    case 0
    with 1 3 es(3) show ?thesis by simp
  next
    case (Suc j)
    with that have "j < length rest" by simp
    with es(5) Suc 3 show ?thesis by simp
  qed
  have "length outs = length (line # rest) \<and> length (e # es) = Suc (length (line # rest)) \<and>
     (e # es) ! 0 = e \<and> (e # es) ! length (line # rest) = e'"
    using es 3 by simp
  with step show ?case by (intro exI [of _ "e # es"]) blast
qed

text \<open>
  Claim C4, as the code has it. A line whose first character that is not whitespace is
  \<^verbatim>\<open>#\<close>, or that has no \<^verbatim>\<open>=\<close>, is emitted as it is and nothing else happens. Any other
  line is its key, the first \<^verbatim>\<open>=\<close> and the rest; the line emitted is the key, \<^verbatim>\<open>=\<close>,
  what \<open>translate_text\<close> returns for the rest without its line feeds, and one line
  feed; for a line read from a file that candidate is the rest itself, or the rest
  without the line feed that ends the line. \<^verbatim>\<open>translate_properties\<close> runs the lines of
  the file in order, each in the state the line before it left, and writes the lines
  emitted one after the other; it returns unless the skip pattern makes the search
  raise. With a translation function that is a function of the text, the text written is
  the one line \<open>expected_line\<close> gives for each line.
\<close>

theorem translate_properties_format:
  "(startswith line (py ''#'') \<or> startswith (strip line) (py ''#'') \<or> 61 \<notin> set line \<longrightarrow>
      properties_line re tf a line e = (Inr line, e)) \<and>
   (\<not> startswith (strip line) (py ''#'') \<and> 61 \<in> set line \<longrightarrow>
      line = fst (split_eq line) @ py ''='' @ snd (split_eq line) \<and>
      61 \<notin> set (fst (split_eq line)) \<and>
      properties_line re tf a line e =
        (case translate_text re (rstrip_nl (snd (split_eq line))) tf a e of
           (Inl err, e') \<Rightarrow> (Inl err, e')
         | (Inr newval, e') \<Rightarrow> (Inr (fst (split_eq line) @ py ''='' @ newval @ [10]), e')) \<and>
      (line \<in> set (file_lines content) \<longrightarrow>
         10 \<notin> set (rstrip_nl (snd (split_eq line))) \<and>
         (snd (split_eq line) = rstrip_nl (snd (split_eq line)) \<or>
          snd (split_eq line) = rstrip_nl (snd (split_eq line)) @ [10]))) \<and>
   concat (file_lines content) = universal_newlines content \<and>
   (translate_properties re content tf a e = (Inr out, e') \<longrightarrow>
      (\<exists>outs es. out = concat outs \<and> length outs = length (file_lines content) \<and>
         length es = Suc (length (file_lines content)) \<and> es ! 0 = e \<and>
         es ! length (file_lines content) = e' \<and>
         (\<forall>i < length (file_lines content).
            properties_line re tf a (file_lines content ! i) (es ! i)
              = (Inr (outs ! i), es ! Suc i)))) \<and>
   ((\<forall>x err. skip_match re a x \<noteq> Inl err) \<longrightarrow>
      (\<exists>out. fst (translate_properties re content tf a e) = Inr out)) \<and>
   (cache_agrees f (db e) \<and> (\<forall>x err. skip_match re a x \<noteq> Inl err) \<longrightarrow>
      fst (translate_properties re content (pure_client f) a e)
        = Inr (concat (map (expected_line re a f) (file_lines content))))"
proof -
  note per_line = properties_line_cases [of line re tf a e content]
  have chain: "\<exists>outs es. out = concat outs \<and> length outs = length (file_lines content) \<and>
         length es = Suc (length (file_lines content)) \<and> es ! 0 = e \<and>
         es ! length (file_lines content) = e' \<and>
         (\<forall>i < length (file_lines content).
            properties_line re tf a (file_lines content ! i) (es ! i)
              = (Inr (outs ! i), es ! Suc i))"
    if "translate_properties re content tf a e = (Inr out, e')"
  proof -
    from that obtain outs where
      l: "properties_loop re tf a (file_lines content) e = (Inr outs, e')"
      and o: "out = concat outs"
      by (cases "properties_loop re tf a (file_lines content) e")
         (auto simp: translate_properties_def split: sum.splits)
    from properties_loop_chain [OF l] o show ?thesis by blast
  qed
  have returns: "\<exists>out. fst (translate_properties re content tf a e) = Inr out"
    if "\<forall>x err. skip_match re a x \<noteq> Inl err"
  proof -
    from that have "\<exists>outs e'. properties_loop re tf a (file_lines content) e = (Inr outs, e')"
      by (intro properties_loop_returns) blast
    then show ?thesis by (auto simp: translate_properties_def)
  qed
  have pure: "fst (translate_properties re content (pure_client f) a e)
        = Inr (concat (map (expected_line re a f) (file_lines content)))"
    if "cache_agrees f (db e)" "\<forall>x err. skip_match re a x \<noteq> Inl err"
  proof -
    from that have "\<exists>e'. properties_loop re (pure_client f) a (file_lines content) e
        = (Inr (map (expected_line re a f) (file_lines content)), e') \<and> cache_agrees f (db e')"
      by (intro properties_loop_pure) auto
    then show ?thesis by (auto simp: translate_properties_def)
  qed
  from per_line chain returns pure concat_file_lines [of content] show ?thesis by blast
qed

theorem translate_properties_format_witness:
  "fst (translate_properties (\<lambda>p x. Inr False)
          (py ''# note'' @ [10] @ py ''greeting=Hello'' @ [13, 10] @ py ''no separator'')
          (pure_client (\<lambda>text. if text = py ''Hello'' then Inr (py ''Hola'')
                               else Inl (Exception (py ''unknown''))))
          \<lparr>src = py ''EN'', tgt = py ''ES'', api_key = py ''key'', skip_regex = None\<rparr>
          \<lparr>db = Map.empty, world = (), stderr = []\<rparr>)
     = Inr (py ''# note'' @ [10] @ py ''greeting=Hola'' @ [10] @ py ''no separator'')"
proof -
  let ?re = "\<lambda>(p::pystr) (x::pystr). Inr False :: exn + bool"
  let ?f = "\<lambda>text::pystr. if text = py ''Hello'' then Inr (py ''Hola'')
                               else Inl (Exception (py ''unknown''))"
  let ?a = "\<lparr>src = py ''EN'', tgt = py ''ES'', api_key = py ''key'', skip_regex = None\<rparr>"
  let ?e = "\<lparr>db = Map.empty, world = (), stderr = []\<rparr> :: unit env"
  let ?c = "py ''# note'' @ [10] @ py ''greeting=Hello'' @ [13, 10] @ py ''no separator''"
  have fl: "file_lines ?c = [py ''# note'' @ [10], py ''greeting=Hello'' @ [10], py ''no separator'']"
    by (simp add: file_lines_def py_def)
  have 1: "expected_line ?re ?a ?f (py ''# note'' @ [10]) = py ''# note'' @ [10]"
    by (simp add: expected_line_def startswith_def str_eval)
  have sp: "split_eq (py ''greeting=Hello'' @ [10]) = (py ''greeting'', py ''Hello'' @ [10])"
    by (simp add: split_eq_def py_def)
  have rs: "rstrip_nl (py ''Hello'' @ [10]) = py ''Hello''"
    by (simp add: rstrip_nl_def py_def)
  have ex: "expected ?re ?a ?f (py ''Hello'') = py ''Hola''"
    by (simp add: expected_def skip_match_def str_eval)
  have nc: "\<not> startswith (strip (py ''greeting=Hello'' @ [10])) (py ''#'')
      \<and> 61 \<in> set (py ''greeting=Hello'' @ [10])"
    by (simp add: startswith_def str_eval)
  have 2: "expected_line ?re ?a ?f (py ''greeting=Hello'' @ [10]) = py ''greeting=Hola'' @ [10]"
    using nc by (simp add: expected_line_def sp rs ex) (simp add: py_def)
  have 3: "expected_line ?re ?a ?f (py ''no separator'') = py ''no separator''"
    by (simp add: expected_line_def py_def)
  have "cache_agrees ?f (db ?e) \<and> (\<forall>x err. skip_match ?re ?a x \<noteq> Inl err)"
    by (simp add: cache_agrees_def skip_match_def)
  with translate_properties_format [where re = ?re and a = ?a and e = ?e and f = ?f and content = ?c]
  have "fst (translate_properties ?re ?c (pure_client ?f) ?a ?e)
        = Inr (concat (map (expected_line ?re ?a ?f) (file_lines ?c)))"
    by blast
  then have "fst (translate_properties ?re ?c (pure_client ?f) ?a ?e)
        = Inr (concat (map (expected_line ?re ?a ?f)
            [py ''# note'' @ [10], py ''greeting=Hello'' @ [10], py ''no separator'']))"
    by (simp only: fl)
  then show ?thesis by (simp add: 1 2 3)
qed

text \<open>
  Claim C4 as stated fails for a comment that is indented: the line \<^verbatim>\<open>  #a=b\<close> does not
  start with \<^verbatim>\<open>#\<close> and has a \<^verbatim>\<open>=\<close>, and yet it is written back as it is, nothing
  translated and no line feed added, with a translation function that turns every text
  into \<^verbatim>\<open>X\<close>.
\<close>

theorem indented_comment_kept:
  "\<not> startswith (py ''  #a=b'') (py ''#'') \<and> 61 \<in> set (py ''  #a=b'') \<and>
   fst (translate_properties (\<lambda>p x. Inr False) (py ''  #a=b'')
          (pure_client (\<lambda>text. Inr (py ''X'')))
          \<lparr>src = py ''EN'', tgt = py ''ES'', api_key = py ''key'', skip_regex = None\<rparr>
          \<lparr>db = Map.empty, world = (), stderr = []\<rparr>)
     = Inr (py ''  #a=b'')"
proof -
  have 1: "\<not> startswith (py ''  #a=b'') (py ''#'')" by (simp add: startswith_def py_def)
  have 2: "61 \<in> set (py ''  #a=b'')" by (simp add: py_def)
  have fl: "file_lines (py ''  #a=b'') = [py ''  #a=b'']"
    by (simp add: file_lines_def py_def)
  have c: "startswith (strip (py ''  #a=b'')) (py ''#'')"
    by (simp add: startswith_def str_eval)
  have 3: "fst (translate_properties (\<lambda>p x. Inr False) (py ''  #a=b'')
          (pure_client (\<lambda>text. Inr (py ''X'')))
          \<lparr>src = py ''EN'', tgt = py ''ES'', api_key = py ''key'', skip_regex = None\<rparr>
          \<lparr>db = Map.empty, world = (), stderr = []\<rparr>)
     = Inr (py ''  #a=b'')"
    by (simp add: translate_properties_def fl properties_line_def c)
  from 1 2 3 show ?thesis by blast
qed

section \<open>Properties of translation catalogs\<close>

lemma po_loop_spec:
  "po_loop re tf a po changed e = (Inr (po', ch), e') \<Longrightarrow>
   list_all2 (po_entry_done re tf a) po po' \<and>
   (ch \<longleftrightarrow> changed \<or> (\<exists>entry \<in> set po. po_candidate entry))"
proof (induction po arbitrary: changed e po' ch e')
  case Nil
  then show ?case by simp
next
  case (Cons entry rest)
  show ?case
  proof (cases "po_candidate entry")
    case True
    then have c: "strip (msgid entry) \<noteq> []" "strip (msgstr entry) = []"
      by (simp_all add: po_candidate_def)
    from Cons.prems c obtain t e1 rest' where
      t: "translate_text re (msgid entry) tf a e = (Inr t, e1)"
      and r: "po_loop re tf a rest True e1 = (Inr (rest', ch), e')"
      and p: "po' = entry\<lparr>msgstr := t\<rparr> # rest'"
      by (auto split: prod.splits sum.splits)
    from Cons.IH [OF r] True t p show ?thesis
      by (auto simp: po_entry_done_def)
  next
    case False
    with Cons.prems obtain rest' where
      r: "po_loop re tf a rest changed e = (Inr (rest', ch), e')"
      and p: "po' = entry # rest'"
      by (auto simp: po_candidate_def split: prod.splits sum.splits if_splits)
    from Cons.IH [OF r] False p show ?thesis
      by (auto simp: po_entry_done_def)
  qed
qed

lemma po_loop_returns:
  "(\<And>x err. skip_match re a x \<noteq> Inl err) \<Longrightarrow>
   \<exists>r e'. po_loop re tf a po changed e = (Inr r, e')"
proof (induction po arbitrary: changed e)
  case Nil
  then show ?case by simp
next
  case (Cons entry rest)
  obtain t e1 where t: "translate_text re (msgid entry) tf a e = (Inr t, e1)"
    using translate_text_returns [of re a "msgid entry" tf e] Cons.prems
    by (cases "translate_text re (msgid entry) tf a e") auto
  from Cons.IH [OF Cons.prems, of changed e] obtain r1 e2 where
    1: "po_loop re tf a rest changed e = (Inr r1, e2)" by blast
  from Cons.IH [OF Cons.prems, of True e1] obtain r2 e3 where
    2: "po_loop re tf a rest True e1 = (Inr r2, e3)" by blast
  from t 1 2 show ?case
    by (cases r1; cases r2) auto
qed

lemma po_entries_frame:
  "(fst (translate_po re po tf a e) = Inr (po', saved) \<longrightarrow>
      length po' = length po \<and>
      (\<forall>i < length po.
         msgid (po' ! i) = msgid (po ! i) \<and>
         (\<not> (strip (msgid (po ! i)) \<noteq> [] \<and> strip (msgstr (po ! i)) = []) \<longrightarrow> po' ! i = po ! i) \<and>
         (strip (msgid (po ! i)) \<noteq> [] \<and> strip (msgstr (po ! i)) = [] \<longrightarrow>
            po' ! i = (po ! i)\<lparr>msgstr := msgstr (po' ! i)\<rparr> \<and>
            (\<exists>e1 e2. translate_text re (msgid (po ! i)) tf a e1 = (Inr (msgstr (po' ! i)), e2)) \<and>
            (strip (msgstr (po' ! i)) \<noteq> [] \<longrightarrow> po' ! i \<noteq> po ! i))) \<and>
      (saved \<longleftrightarrow> (\<exists>entry \<in> set po. strip (msgid entry) \<noteq> [] \<and> strip (msgstr entry) = []))) \<and>
   ((\<forall>x err. skip_match re a x \<noteq> Inl err) \<longrightarrow>
      (\<exists>r. fst (translate_po re po tf a e) = Inr r))"
proof -
  have spec: "length po' = length po \<and>
      (\<forall>i < length po.
         msgid (po' ! i) = msgid (po ! i) \<and>
         (\<not> (strip (msgid (po ! i)) \<noteq> [] \<and> strip (msgstr (po ! i)) = []) \<longrightarrow> po' ! i = po ! i) \<and>
         (strip (msgid (po ! i)) \<noteq> [] \<and> strip (msgstr (po ! i)) = [] \<longrightarrow>
            po' ! i = (po ! i)\<lparr>msgstr := msgstr (po' ! i)\<rparr> \<and>
            (\<exists>e1 e2. translate_text re (msgid (po ! i)) tf a e1 = (Inr (msgstr (po' ! i)), e2)) \<and>
            (strip (msgstr (po' ! i)) \<noteq> [] \<longrightarrow> po' ! i \<noteq> po ! i))) \<and>
      (saved \<longleftrightarrow> (\<exists>entry \<in> set po. strip (msgid entry) \<noteq> [] \<and> strip (msgstr entry) = []))"
    if "fst (translate_po re po tf a e) = Inr (po', saved)"
  proof -
    from that obtain e' where "po_loop re tf a po False e = (Inr (po', saved), e')"
      by (cases "po_loop re tf a po False e") (auto simp: translate_po_def)
    from po_loop_spec [OF this]
    have all: "list_all2 (po_entry_done re tf a) po po'"
      and sv: "saved \<longleftrightarrow> (\<exists>entry \<in> set po. po_candidate entry)" by simp_all
    from all have len: "length po' = length po"
      by (simp add: list_all2_lengthD)
    have each: "msgid (po' ! i) = msgid (po ! i) \<and>
         (\<not> (strip (msgid (po ! i)) \<noteq> [] \<and> strip (msgstr (po ! i)) = []) \<longrightarrow> po' ! i = po ! i) \<and>
         (strip (msgid (po ! i)) \<noteq> [] \<and> strip (msgstr (po ! i)) = [] \<longrightarrow>
            po' ! i = (po ! i)\<lparr>msgstr := msgstr (po' ! i)\<rparr> \<and>
            (\<exists>e1 e2. translate_text re (msgid (po ! i)) tf a e1 = (Inr (msgstr (po' ! i)), e2)) \<and>
            (strip (msgstr (po' ! i)) \<noteq> [] \<longrightarrow> po' ! i \<noteq> po ! i))"
      if "i < length po" for i
    proof -
      from all that have d: "po_entry_done re tf a (po ! i) (po' ! i)"
        by (rule list_all2_nthD)
      show ?thesis
      proof (cases "po_candidate (po ! i)")
        case True
        with d have 1: "po' ! i = (po ! i)\<lparr>msgstr := msgstr (po' ! i)\<rparr>"
          and 2: "\<exists>e1 e2. translate_text re (msgid (po ! i)) tf a e1 = (Inr (msgstr (po' ! i)), e2)"
          by (simp_all add: po_entry_done_def)
        from 1 have "msgid (po' ! i) = msgid ((po ! i)\<lparr>msgstr := msgstr (po' ! i)\<rparr>)" by simp
        then have 3: "msgid (po' ! i) = msgid (po ! i)" by simp
        have 4: "po' ! i \<noteq> po ! i" if "strip (msgstr (po' ! i)) \<noteq> []"
          using that True by (auto simp: po_candidate_def)
        from True 1 2 3 4 show ?thesis by (simp add: po_candidate_def)
      next
        case False
        with d show ?thesis by (auto simp: po_entry_done_def po_candidate_def)
      qed
    qed
    from len each sv show ?thesis by (simp add: po_candidate_def)
  qed
  have total: "\<exists>r. fst (translate_po re po tf a e) = Inr r"
    if "\<forall>x err. skip_match re a x \<noteq> Inl err"
  proof -
    from that have "\<exists>r e'. po_loop re tf a po False e = (Inr r, e')"
      by (intro po_loop_returns) blast
    then show ?thesis by (auto simp: translate_po_def)
  qed
  from spec total show ?thesis by blast
qed

lemma po_loop_pure:
  assumes total: "\<And>x err. skip_match re a x \<noteq> Inl err"
  shows "cache_agrees f (db e) \<Longrightarrow>
     \<exists>e'. po_loop re (pure_client f) a po changed e =
        (Inr (map (po_expected re a f) po, changed \<or> list_ex po_candidate po), e')
        \<and> cache_agrees f (db e')"
proof (induction po arbitrary: changed e)
  case Nil
  then show ?case by simp
next
  case (Cons entry rest)
  show ?case
  proof (cases "po_candidate entry")
    case True
    then have c: "strip (msgid entry) \<noteq> []" "strip (msgstr entry) = []"
      by (simp_all add: po_candidate_def)
    from translate_text_pure [OF Cons.prems total, of "msgid entry"] obtain e1 where
      1: "translate_text re (msgid entry) (pure_client f) a e
            = (Inr (expected re a f (msgid entry)), e1)"
      and 2: "cache_agrees f (db e1)" by blast
    from Cons.IH [OF 2, of True] obtain e' where
      3: "po_loop re (pure_client f) a rest True e1 =
            (Inr (map (po_expected re a f) rest, True \<or> list_ex po_candidate rest), e')"
      and 4: "cache_agrees f (db e')" by blast
    from True c 1 3 4 show ?thesis by (simp add: po_expected_def)
  next
    case False
    from Cons.IH [OF Cons.prems, of changed] obtain e' where
      3: "po_loop re (pure_client f) a rest changed e =
            (Inr (map (po_expected re a f) rest, changed \<or> list_ex po_candidate rest), e')"
      and 4: "cache_agrees f (db e')" by blast
    from False have skip: "strip (msgid entry) = [] \<or> strip (msgstr entry) \<noteq> []"
      by (simp add: po_candidate_def)
    have "po_loop re (pure_client f) a (entry # rest) changed e =
        (Inr (entry # map (po_expected re a f) rest, changed \<or> list_ex po_candidate rest), e')"
      using skip 3 by auto
    with False 4 show ?thesis by (simp add: po_expected_def)
  qed
qed

lemma po_loop_chain:
  "po_loop re tf a po changed e = (Inr (po', ch), e') \<Longrightarrow>
   \<exists>es. length po' = length po \<and> length es = Suc (length po) \<and> es ! 0 = e \<and>
     es ! length po = e' \<and>
     (\<forall>i < length po.
        if po_candidate (po ! i)
        then translate_text re (msgid (po ! i)) tf a (es ! i)
               = (Inr (msgstr (po' ! i)), es ! Suc i) \<and>
             po' ! i = (po ! i)\<lparr>msgstr := msgstr (po' ! i)\<rparr>
        else po' ! i = po ! i \<and> es ! Suc i = es ! i)"
proof (induction po arbitrary: changed e po' ch e')
  case Nil
  then have "po' = []" "e' = e" by simp_all
  then have "length po' = length ([]::po_entry list) \<and>
     length [e] = Suc (length ([]::po_entry list)) \<and> [e] ! 0 = e \<and>
     [e] ! length ([]::po_entry list) = e'"
    by simp
  then show ?case by (intro exI [of _ "[e]"]) simp
next
  case (Cons entry rest)
  obtain e1 rest' flag where
    1: "if po_candidate entry
        then (\<exists>t. translate_text re (msgid entry) tf a e = (Inr t, e1) \<and>
               po' = entry\<lparr>msgstr := t\<rparr> # rest')
        else e1 = e \<and> po' = entry # rest'"
    and 2: "po_loop re tf a rest flag e1 = (Inr (rest', ch), e')"
  proof (cases "po_candidate entry")
    case True
    then have c: "strip (msgid entry) \<noteq> []" "strip (msgstr entry) = []"
      by (simp_all add: po_candidate_def)
    from Cons.prems c obtain t x rest' where
      "translate_text re (msgid entry) tf a e = (Inr t, x)"
      "po_loop re tf a rest True x = (Inr (rest', ch), e')"
      "po' = entry\<lparr>msgstr := t\<rparr> # rest'"
      by (auto split: prod.splits sum.splits)
    with True that show ?thesis by auto
  next
    case False
    with Cons.prems obtain rest' where
      "po_loop re tf a rest changed e = (Inr (rest', ch), e')" "po' = entry # rest'"
      by (auto simp: po_candidate_def split: prod.splits sum.splits if_splits)
    with False that show ?thesis by auto
  qed
  from Cons.IH [OF 2] obtain es where es:
    "length rest' = length rest" "length es = Suc (length rest)" "es ! 0 = e1"
    "es ! length rest = e'"
    "\<forall>i < length rest.
        if po_candidate (rest ! i)
        then translate_text re (msgid (rest ! i)) tf a (es ! i)
               = (Inr (msgstr (rest' ! i)), es ! Suc i) \<and>
             rest' ! i = (rest ! i)\<lparr>msgstr := msgstr (rest' ! i)\<rparr>
        else rest' ! i = rest ! i \<and> es ! Suc i = es ! i"
    by blast
  have tl: "\<exists>x. po' = x # rest'" using 1 by (auto split: if_splits)
  have step: "if po_candidate ((entry # rest) ! i)
        then translate_text re (msgid ((entry # rest) ! i)) tf a ((e # es) ! i)
               = (Inr (msgstr (po' ! i)), (e # es) ! Suc i) \<and>
             po' ! i = ((entry # rest) ! i)\<lparr>msgstr := msgstr (po' ! i)\<rparr>
        else po' ! i = (entry # rest) ! i \<and> (e # es) ! Suc i = (e # es) ! i"
    if "i < length (entry # rest)" for i
  proof (cases i)
    case 0
    with 1 es(3) show ?thesis by (auto split: if_splits)
  next
    case (Suc j)
    with that have "j < length rest" by simp
    with es(5) Suc tl show ?thesis by auto
  qed
  have "length po' = length (entry # rest) \<and> length (e # es) = Suc (length (entry # rest)) \<and>
     (e # es) ! 0 = e \<and> (e # es) ! length (entry # rest) = e'"
    using es tl by auto
  with step show ?case by (intro exI [of _ "e # es"]) blast
qed

text \<open>
  Claim C7, as the code has it. Whenever \<^verbatim>\<open>translate_po\<close> returns, the catalog has the
  entries it had, each with its id; an entry whose id is blank or whose translation is
  not blank is the entry it was, whatever the translation function would return; an
  entry with an id and a blank translation has its translation set to what
  \<open>translate_text\<close> returned for the id in the state the entries before it left, which
  differs from the blank one it had whenever it is not blank itself; and the file is
  saved exactly when there is such an entry, whether or not the value set differs from
  the one it replaces. \<^verbatim>\<open>translate_po\<close> does return, unless the skip pattern makes the
  search raise. With a translation function that is a function of the text, the catalog
  left is the one entry \<open>po_expected\<close> gives for each entry.
\<close>

theorem translate_po_candidates:
  "(translate_po re po tf a e = (Inr (po', saved), e') \<longrightarrow>
      length po' = length po \<and>
      (\<forall>i < length po.
         msgid (po' ! i) = msgid (po ! i) \<and>
         (\<not> (strip (msgid (po ! i)) \<noteq> [] \<and> strip (msgstr (po ! i)) = []) \<longrightarrow> po' ! i = po ! i) \<and>
         (strip (msgid (po ! i)) \<noteq> [] \<and> strip (msgstr (po ! i)) = [] \<longrightarrow>
            po' ! i = (po ! i)\<lparr>msgstr := msgstr (po' ! i)\<rparr> \<and>
            (\<exists>e1 e2. translate_text re (msgid (po ! i)) tf a e1 = (Inr (msgstr (po' ! i)), e2)) \<and>
            (strip (msgstr (po' ! i)) \<noteq> [] \<longrightarrow> po' ! i \<noteq> po ! i))) \<and>
      (saved \<longleftrightarrow> (\<exists>entry \<in> set po. strip (msgid entry) \<noteq> [] \<and> strip (msgstr entry) = [])) \<and>
      (\<exists>es. length es = Suc (length po) \<and> es ! 0 = e \<and> es ! length po = e' \<and>
         (\<forall>i < length po.
            if po_candidate (po ! i)
            then translate_text re (msgid (po ! i)) tf a (es ! i)
                   = (Inr (msgstr (po' ! i)), es ! Suc i) \<and>
                 po' ! i = (po ! i)\<lparr>msgstr := msgstr (po' ! i)\<rparr>
            else po' ! i = po ! i \<and> es ! Suc i = es ! i))) \<and>
   ((\<forall>x err. skip_match re a x \<noteq> Inl err) \<longrightarrow>
      (\<exists>r. fst (translate_po re po tf a e) = Inr r)) \<and>
   (cache_agrees f (db e) \<and> (\<forall>x err. skip_match re a x \<noteq> Inl err) \<longrightarrow>
      fst (translate_po re po (pure_client f) a e)
        = Inr (map (po_expected re a f) po, list_ex po_candidate po))"
proof -
  note frame = po_entries_frame [of re po tf a e po' saved]
  have chain: "\<exists>es. length es = Suc (length po) \<and> es ! 0 = e \<and> es ! length po = e' \<and>
         (\<forall>i < length po.
            if po_candidate (po ! i)
            then translate_text re (msgid (po ! i)) tf a (es ! i)
                   = (Inr (msgstr (po' ! i)), es ! Suc i) \<and>
                 po' ! i = (po ! i)\<lparr>msgstr := msgstr (po' ! i)\<rparr>
            else po' ! i = po ! i \<and> es ! Suc i = es ! i)"
    if "translate_po re po tf a e = (Inr (po', saved), e')"
  proof -
    from that have "po_loop re tf a po False e = (Inr (po', saved), e')"
      by (simp add: translate_po_def)
    from po_loop_chain [OF this] show ?thesis by blast
  qed
  have fst_form: "fst (translate_po re po tf a e) = Inr (po', saved)"
    if "translate_po re po tf a e = (Inr (po', saved), e')"
    using that by simp
  have pure: "fst (translate_po re po (pure_client f) a e)
        = Inr (map (po_expected re a f) po, list_ex po_candidate po)"
    if "cache_agrees f (db e)" "\<forall>x err. skip_match re a x \<noteq> Inl err"
  proof -
    from that have "\<exists>e'. po_loop re (pure_client f) a po False e =
        (Inr (map (po_expected re a f) po, False \<or> list_ex po_candidate po), e')
        \<and> cache_agrees f (db e')"
      by (intro po_loop_pure) auto
    then show ?thesis by (auto simp: translate_po_def)
  qed
  from frame chain fst_form pure show ?thesis by blast
qed

theorem translate_po_candidates_witness:
  "fst (translate_po (\<lambda>p x. Inr False)
          [\<lparr>msgid = [], msgstr = py ''header''\<rparr>,
           \<lparr>msgid = py ''Hello'', msgstr = []\<rparr>,
           \<lparr>msgid = py ''Bye'', msgstr = py ''Servus''\<rparr>]
          (pure_client (\<lambda>text. Inr (py ''Hallo'')))
          \<lparr>src = py ''EN'', tgt = py ''DE'', api_key = py ''key'', skip_regex = None\<rparr>
          \<lparr>db = Map.empty, world = (), stderr = []\<rparr>)
     = Inr ([\<lparr>msgid = [], msgstr = py ''header''\<rparr>,
             \<lparr>msgid = py ''Hello'', msgstr = py ''Hallo''\<rparr>,
             \<lparr>msgid = py ''Bye'', msgstr = py ''Servus''\<rparr>], True)"
proof -
  let ?re = "\<lambda>(p::pystr) (x::pystr). Inr False :: exn + bool"
  let ?f = "\<lambda>text::pystr. Inr (py ''Hallo'') :: exn + pystr"
  let ?a = "\<lparr>src = py ''EN'', tgt = py ''DE'', api_key = py ''key'', skip_regex = None\<rparr>"
  let ?e = "\<lparr>db = Map.empty, world = (), stderr = []\<rparr> :: unit env"
  let ?po = "[\<lparr>msgid = [], msgstr = py ''header''\<rparr>,
           \<lparr>msgid = py ''Hello'', msgstr = []\<rparr>,
           \<lparr>msgid = py ''Bye'', msgstr = py ''Servus''\<rparr>]"
  have c: "\<not> po_candidate \<lparr>msgid = [], msgstr = py ''header''\<rparr>"
    "po_candidate \<lparr>msgid = py ''Hello'', msgstr = []\<rparr>"
    "\<not> po_candidate \<lparr>msgid = py ''Bye'', msgstr = py ''Servus''\<rparr>"
    by (simp_all add: po_candidate_def str_eval)
  have ex: "expected ?re ?a ?f (py ''Hello'') = py ''Hallo''"
    by (simp add: expected_def skip_match_def str_eval)
  have "cache_agrees ?f (db ?e) \<and> (\<forall>x err. skip_match ?re ?a x \<noteq> Inl err)"
    by (simp add: cache_agrees_def skip_match_def)
  with translate_po_candidates [where re = ?re and a = ?a and e = ?e and f = ?f and po = ?po]
  have "fst (translate_po ?re ?po (pure_client ?f) ?a ?e)
        = Inr (map (po_expected ?re ?a ?f) ?po, list_ex po_candidate ?po)"
    by blast
  then show ?thesis by (simp add: po_expected_def c ex)
qed

text \<open>
  Claim C7 as stated fails when the translation set is the blank one the entry had: with
  a translation function that returns the empty string, the entry with id \<^verbatim>\<open>Hello\<close> and
  no translation is left as it was, no entry has changed, and the file is saved.
\<close>

theorem po_saved_without_change:
  "fst (translate_po (\<lambda>p x. Inr False)
          [\<lparr>msgid = py ''Hello'', msgstr = []\<rparr>]
          (pure_client (\<lambda>text. Inr []))
          \<lparr>src = py ''EN'', tgt = py ''DE'', api_key = py ''key'', skip_regex = None\<rparr>
          \<lparr>db = Map.empty, world = (), stderr = []\<rparr>)
     = Inr ([\<lparr>msgid = py ''Hello'', msgstr = []\<rparr>], True)"
proof -
  let ?re = "\<lambda>(p::pystr) (x::pystr). Inr False :: exn + bool"
  let ?f = "\<lambda>text::pystr. Inr [] :: exn + pystr"
  let ?a = "\<lparr>src = py ''EN'', tgt = py ''DE'', api_key = py ''key'', skip_regex = None\<rparr>"
  let ?e = "\<lparr>db = Map.empty, world = (), stderr = []\<rparr> :: unit env"
  let ?po = "[\<lparr>msgid = py ''Hello'', msgstr = []\<rparr>]"
  have c: "po_candidate \<lparr>msgid = py ''Hello'', msgstr = []\<rparr>"
    by (simp add: po_candidate_def str_eval)
  have ex: "expected ?re ?a ?f (py ''Hello'') = []"
    by (simp add: expected_def skip_match_def str_eval)
  have "\<exists>e'. po_loop ?re (pure_client ?f) ?a ?po False ?e =
        (Inr (map (po_expected ?re ?a ?f) ?po, False \<or> list_ex po_candidate ?po), e')
        \<and> cache_agrees ?f (db e')"
    by (rule po_loop_pure) (simp_all add: cache_agrees_def skip_match_def)
  then obtain e' where "po_loop ?re (pure_client ?f) ?a ?po False ?e =
        (Inr (map (po_expected ?re ?a ?f) ?po, False \<or> list_ex po_candidate ?po), e')"
    by blast
  then have "fst (translate_po ?re ?po (pure_client ?f) ?a ?e)
        = Inr (map (po_expected ?re ?a ?f) ?po, list_ex po_candidate ?po)"
    by (simp only: translate_po_def fst_conv simp_thms)
  then show ?thesis by (simp add: po_expected_def c ex)
qed

end
